theory Spec2Isabelle
  imports Main "HOL-Library.Word"
begin

section \<open>The Crowdfunding contract of PhilanChain.sol\<close>

text \<open>
  The contract is embedded function by function. Solidity's \<open>uint256\<close> is a 256-bit word and an
  \<open>address\<close> a 160-bit word. The compiler (pragma 0.8.20) checks every \<open>+\<close>, \<open>-\<close> and \<open>*\<close>
  and reverts with a panic when the result does not fit; the model writes each of these checks
  out and returns \<open>Inl Panic\<close>. A call returns \<open>Inl e\<close> when it reverts with error \<open>e\<close> and
  \<open>Inr s'\<close> with the new contract state when it completes. The names of the errors are the
  ones declared in the source; the specification calls some of them differently
  (\<open>FundraisingClosed\<close> is its CampaignClosed, \<open>InvalidDonationAmount\<close> its ZeroAmount,
  \<open>InvalidMilestoneAmount\<close> its InvalidAmount, \<open>RefundNotAvailable\<close> its RefundUnavailable,
  \<open>NoDonationToRefund\<close> its NothingToRefund, \<open>NoFundsToWithdraw\<close> its NothingToWithdraw,
  \<open>FundsAlreadyReleased\<close> its AlreadyReleased, \<open>OnlyDonorsCanVote\<close> its NotADonor,
  \<open>InsufficientContractBalance\<close> its InsufficientFunds, \<open>Panic\<close> its Overflow, and the
  \<open>InvalidMilestone\<close> raised by \<open>createMilestone\<close> for a zero duration its InvalidDuration).
\<close>

type_synonym uint256 = "256 word"
type_synonym address = "160 word"

datatype error =
    UseDonateFunction
  | NotOwner
  | FundraisingClosed
  | InvalidDonationAmount
  | NoFundsToWithdraw
  | TransferFailed
  | RefundNotAvailable
  | NoDonationToRefund
  | WithdrawalNotAvailable
  | InvalidMilestone
  | InsufficientContractBalance
  | VotingNotActive
  | VotingPeriodNotEnded
  | AlreadyVoted
  | OnlyDonorsCanVote
  | MilestoneNotApproved
  | FundsAlreadyReleased
  | InvalidMilestoneAmount
  | EmptyDescription
  | VotingStillActive
  | Panic
  | Error string

record Milestone =
  description :: string
  fundAmount :: uint256
  voteDeadline :: uint256
  yesVotes :: uint256
  noVotes :: uint256
  approved :: bool
  fundsReleased :: bool
  votingActive :: bool

record CampaignUpdate =
  title :: string
  contentHash :: string
  timestamp :: uint256

datatype event =
    DonationReceived address uint256
  | FundsWithdrawn uint256
  | MilestoneCreated uint256 string uint256
  | VoteCast uint256 address bool uint256
  | MilestoneApproved uint256
  | MilestoneRejected uint256
  | MilestoneFundsReleased uint256 uint256
  | CampaignUpdatePosted uint256 string uint256
  | RefundIssued address uint256

text \<open>
  The storage of the contract, together with the ether it holds (\<open>address(this).balance\<close>,
  field \<open>this_balance\<close>) and the log of the events it has emitted.
\<close>

record crowdfunding =
  owner :: address
  fundraisingGoal :: uint256
  totalDonations :: uint256
  deadline :: uint256
  campaignActive :: bool
  donations :: "address \<Rightarrow> uint256"
  milestones :: "Milestone list"
  updates :: "CampaignUpdate list"
  hasVoted :: "uint256 \<Rightarrow> address \<Rightarrow> bool"
  this_balance :: uint256
  events :: "event list"

text \<open>
  What a call sees of its transaction: \<open>msg.sender\<close>, \<open>block.timestamp\<close>, and whether the
  account that is sent ether by \<open>call{value: ...}("")\<close> accepts it (\<open>call_success\<close>; an
  externally owned account always does, a contract may refuse).
\<close>

record env =
  msg_sender :: address
  block_timestamp :: uint256
  call_success :: bool

subsection \<open>Checked arithmetic\<close>

definition add_overflows :: "uint256 \<Rightarrow> uint256 \<Rightarrow> bool" where
  "add_overflows a b \<longleftrightarrow> 2 ^ 256 \<le> unat a + unat b"

definition mul_overflows :: "uint256 \<Rightarrow> uint256 \<Rightarrow> bool" where
  "mul_overflows a b \<longleftrightarrow> 2 ^ 256 \<le> unat a * unat b"

definition sub_underflows :: "uint256 \<Rightarrow> uint256 \<Rightarrow> bool" where
  "sub_underflows a b \<longleftrightarrow> a < b"

definition one_day :: uint256 where
  "one_day = 86400"

subsection \<open>Constructor\<close>

text \<open>
  The constructor is not payable; \<open>bal0\<close> is the ether the address held before the contract
  was deployed to it.
\<close>

definition constructor :: "env \<Rightarrow> uint256 \<Rightarrow> uint256 \<Rightarrow> uint256 \<Rightarrow> error + crowdfunding" where
  "constructor e goal durationDays bal0 =
    (if \<not> 0 < goal then Inl (Error ''Goal must be > 0'')
     else if \<not> 0 < durationDays then Inl (Error ''Duration must be > 0'')
     else if mul_overflows durationDays one_day then Inl Panic
     else if add_overflows (block_timestamp e) (durationDays * one_day) then Inl Panic
     else if \<not> block_timestamp e < block_timestamp e + durationDays * one_day
       then Inl (Error ''Invalid deadline'')
     else Inr \<lparr> owner = msg_sender e,
                fundraisingGoal = goal,
                totalDonations = 0,
                deadline = block_timestamp e + durationDays * one_day,
                campaignActive = True,
                donations = (\<lambda>_. 0),
                milestones = [],
                updates = [],
                hasVoted = (\<lambda>_ _. False),
                this_balance = bal0,
                events = [] \<rparr>)"

subsection \<open>State-changing functions\<close>

definition receive :: "env \<Rightarrow> uint256 \<Rightarrow> crowdfunding \<Rightarrow> error + crowdfunding" where
  "receive e msg_value s = Inl UseDonateFunction"

text \<open>
  \<open>donate\<close> is payable: the ether sent with the call is added to the contract's balance. The
  platform never holds more than \<open>2 ^ 256 - 1\<close> wei in one account, so this addition is not
  checked by the contract.
\<close>

definition donate :: "env \<Rightarrow> uint256 \<Rightarrow> crowdfunding \<Rightarrow> error + crowdfunding" where
  "donate e msg_value s =
    (if deadline s \<le> block_timestamp e then Inl FundraisingClosed
     else if msg_value = 0 then Inl InvalidDonationAmount
     else if add_overflows (donations s (msg_sender e)) msg_value then Inl Panic
     else if add_overflows (totalDonations s) msg_value then Inl Panic
     else Inr (s\<lparr> donations := (donations s)
                    (msg_sender e := donations s (msg_sender e) + msg_value),
                  totalDonations := totalDonations s + msg_value,
                  this_balance := this_balance s + msg_value,
                  events := events s @ [DonationReceived (msg_sender e) msg_value] \<rparr>))"

definition createMilestone ::
  "env \<Rightarrow> string \<Rightarrow> uint256 \<Rightarrow> uint256 \<Rightarrow> crowdfunding \<Rightarrow> error + crowdfunding" where
  "createMilestone e desc amount votingDurationDays s =
    (if msg_sender e \<noteq> owner s then Inl NotOwner
     else if length desc = 0 then Inl EmptyDescription
     else if amount = 0 \<or> this_balance s < amount then Inl InvalidMilestoneAmount
     else if votingDurationDays = 0 then Inl InvalidMilestone
     else if mul_overflows votingDurationDays one_day then Inl Panic
     else if add_overflows (block_timestamp e) (votingDurationDays * one_day) then Inl Panic
     else Inr (s\<lparr> milestones := milestones s @
                    [\<lparr> description = desc,
                       fundAmount = amount,
                       voteDeadline = block_timestamp e + votingDurationDays * one_day,
                       yesVotes = 0,
                       noVotes = 0,
                       approved = False,
                       fundsReleased = False,
                       votingActive = True \<rparr>],
                  events := events s @
                    [MilestoneCreated (of_nat (length (milestones s))) desc amount] \<rparr>))"

definition voteOnMilestone ::
  "env \<Rightarrow> uint256 \<Rightarrow> bool \<Rightarrow> crowdfunding \<Rightarrow> error + crowdfunding" where
  "voteOnMilestone e milestoneId approve s =
    (if donations s (msg_sender e) = 0 then Inl OnlyDonorsCanVote
     else if length (milestones s) \<le> unat milestoneId then Inl InvalidMilestone
     else
       let milestone = milestones s ! unat milestoneId in
       if \<not> votingActive milestone then Inl VotingNotActive
       else if voteDeadline milestone < block_timestamp e then Inl VotingNotActive
       else if hasVoted s milestoneId (msg_sender e) then Inl AlreadyVoted
       else
         let voteWeight = donations s (msg_sender e);
             voted = (hasVoted s)(milestoneId := (hasVoted s milestoneId)(msg_sender e := True))
         in
         if approve then
           (if add_overflows (yesVotes milestone) voteWeight then Inl Panic
            else Inr (s\<lparr> hasVoted := voted,
                         milestones := (milestones s)[unat milestoneId :=
                           milestone\<lparr> yesVotes := yesVotes milestone + voteWeight \<rparr>],
                         events := events s @
                           [VoteCast milestoneId (msg_sender e) approve voteWeight] \<rparr>))
         else
           (if add_overflows (noVotes milestone) voteWeight then Inl Panic
            else Inr (s\<lparr> hasVoted := voted,
                         milestones := (milestones s)[unat milestoneId :=
                           milestone\<lparr> noVotes := noVotes milestone + voteWeight \<rparr>],
                         events := events s @
                           [VoteCast milestoneId (msg_sender e) approve voteWeight] \<rparr>)))"

definition finalizeMilestoneVote :: "env \<Rightarrow> uint256 \<Rightarrow> crowdfunding \<Rightarrow> error + crowdfunding" where
  "finalizeMilestoneVote e milestoneId s =
    (if length (milestones s) \<le> unat milestoneId then Inl InvalidMilestone
     else
       let milestone = milestones s ! unat milestoneId in
       if \<not> votingActive milestone then Inl VotingNotActive
       else if block_timestamp e \<le> voteDeadline milestone then Inl VotingStillActive
       else if add_overflows (yesVotes milestone) (noVotes milestone) then Inl Panic
       else
         let totalVotes = yesVotes milestone + noVotes milestone in
         if 0 < totalVotes \<and> noVotes milestone < yesVotes milestone then
           Inr (s\<lparr> milestones := (milestones s)[unat milestoneId :=
                      milestone\<lparr> votingActive := False, approved := True \<rparr>],
                   events := events s @ [MilestoneApproved milestoneId] \<rparr>)
         else
           Inr (s\<lparr> milestones := (milestones s)[unat milestoneId :=
                      milestone\<lparr> votingActive := False \<rparr>],
                   events := events s @ [MilestoneRejected milestoneId] \<rparr>))"

text \<open>
  The three functions below send ether with a low-level call. The call fails when the
  receiver refuses the ether or when the contract holds less than the amount sent; the
  function then reverts with \<open>TransferFailed\<close>. Each of them makes the call after its last
  write to storage, so a receiver that calls back into the contract finds the state the
  function leaves: such a nested call is one more transaction of the sequence below. The
  definitions here give each function with a receiver that makes no such call;
  \<open>withdraw_call\<close> further down adds the receiver's nested calls to \<open>withdraw\<close>.
\<close>

definition releaseMilestoneFunds :: "env \<Rightarrow> uint256 \<Rightarrow> crowdfunding \<Rightarrow> error + crowdfunding" where
  "releaseMilestoneFunds e milestoneId s =
    (if msg_sender e \<noteq> owner s then Inl NotOwner
     else if length (milestones s) \<le> unat milestoneId then Inl InvalidMilestone
     else
       let milestone = milestones s ! unat milestoneId in
       if \<not> approved milestone then Inl MilestoneNotApproved
       else if fundsReleased milestone then Inl FundsAlreadyReleased
       else if this_balance s < fundAmount milestone then Inl InsufficientContractBalance
       else if \<not> (call_success e \<and> fundAmount milestone \<le> this_balance s)
         then Inl TransferFailed
       else Inr (s\<lparr> milestones := (milestones s)[unat milestoneId :=
                       milestone\<lparr> fundsReleased := True \<rparr>],
                    this_balance := this_balance s - fundAmount milestone,
                    events := events s @
                      [MilestoneFundsReleased milestoneId (fundAmount milestone)] \<rparr>))"

definition postUpdate :: "env \<Rightarrow> string \<Rightarrow> string \<Rightarrow> crowdfunding \<Rightarrow> error + crowdfunding" where
  "postUpdate e ttl content s =
    (if msg_sender e \<noteq> owner s then Inl NotOwner
     else if length ttl = 0 then Inl EmptyDescription
     else Inr (s\<lparr> updates := updates s @
                    [\<lparr> title = ttl, contentHash = content, timestamp = block_timestamp e \<rparr>],
                  events := events s @
                    [CampaignUpdatePosted (of_nat (length (updates s))) ttl
                       (block_timestamp e)] \<rparr>))"

definition withdraw :: "env \<Rightarrow> crowdfunding \<Rightarrow> error + crowdfunding" where
  "withdraw e s =
    (if msg_sender e \<noteq> owner s then Inl NotOwner
     else if \<not> (deadline s \<le> block_timestamp e \<or> fundraisingGoal s \<le> totalDonations s)
       then Inl WithdrawalNotAvailable
     else
       let balance = this_balance s in
       if balance = 0 then Inl NoFundsToWithdraw
       else if \<not> (call_success e \<and> balance \<le> this_balance s) then Inl TransferFailed
       else Inr (s\<lparr> this_balance := this_balance s - balance,
                    events := events s @ [FundsWithdrawn balance] \<rparr>))"

definition refund :: "env \<Rightarrow> crowdfunding \<Rightarrow> error + crowdfunding" where
  "refund e s =
    (if \<not> (deadline s \<le> block_timestamp e \<and> totalDonations s < fundraisingGoal s)
       then Inl RefundNotAvailable
     else
       let amount = donations s (msg_sender e) in
       if amount = 0 then Inl NoDonationToRefund
       else if sub_underflows (totalDonations s) amount then Inl Panic
       else if \<not> (call_success e \<and> amount \<le> this_balance s) then Inl TransferFailed
       else Inr (s\<lparr> donations := (donations s)(msg_sender e := 0),
                    totalDonations := totalDonations s - amount,
                    this_balance := this_balance s - amount,
                    events := events s @ [RefundIssued (msg_sender e) amount] \<rparr>))"

definition endCampaign :: "env \<Rightarrow> crowdfunding \<Rightarrow> error + crowdfunding" where
  "endCampaign e s =
    (if msg_sender e \<noteq> owner s then Inl NotOwner
     else Inr (s\<lparr> campaignActive := False \<rparr>))"

subsection \<open>View functions\<close>

definition progressPercentage :: "crowdfunding \<Rightarrow> error + uint256" where
  "progressPercentage s =
    (if fundraisingGoal s = 0 then Inr 0
     else if mul_overflows (totalDonations s) 100 then Inl Panic
     else Inr ((totalDonations s * 100) div fundraisingGoal s))"

definition timeRemaining :: "env \<Rightarrow> crowdfunding \<Rightarrow> uint256" where
  "timeRemaining e s =
    (if block_timestamp e < deadline s then deadline s - block_timestamp e else 0)"

definition hasUserVoted :: "crowdfunding \<Rightarrow> uint256 \<Rightarrow> address \<Rightarrow> bool" where
  "hasUserVoted s milestoneId voter = hasVoted s milestoneId voter"

subsection \<open>Calls, transactions and reachable states\<close>

datatype call =
    Receive uint256
  | Donate uint256
  | CreateMilestone string uint256 uint256
  | VoteOnMilestone uint256 bool
  | FinalizeMilestoneVote uint256
  | ReleaseMilestoneFunds uint256
  | PostUpdate string string
  | Withdraw
  | Refund
  | EndCampaign

fun exec :: "env \<Rightarrow> call \<Rightarrow> crowdfunding \<Rightarrow> error + crowdfunding" where
  "exec e (Receive v) s = receive e v s"
| "exec e (Donate v) s = donate e v s"
| "exec e (CreateMilestone d a n) s = createMilestone e d a n s"
| "exec e (VoteOnMilestone i b) s = voteOnMilestone e i b s"
| "exec e (FinalizeMilestoneVote i) s = finalizeMilestoneVote e i s"
| "exec e (ReleaseMilestoneFunds i) s = releaseMilestoneFunds e i s"
| "exec e (PostUpdate t c) s = postUpdate e t c s"
| "exec e Withdraw s = withdraw e s"
| "exec e Refund s = refund e s"
| "exec e EndCampaign s = endCampaign e s"

text \<open>
  A transaction that reverts leaves the contract as it was; one that completes installs the
  new state.
\<close>

definition apply_call :: "crowdfunding \<Rightarrow> env \<times> call \<Rightarrow> crowdfunding" where
  "apply_call s ec = (case exec (fst ec) (snd ec) s of Inl err \<Rightarrow> s | Inr s' \<Rightarrow> s')"

definition run :: "crowdfunding \<Rightarrow> (env \<times> call) list \<Rightarrow> crowdfunding" where
  "run s cs = foldl apply_call s cs"

text \<open>
  The owner's account is handed control by the call in \<open>withdraw\<close>, after the ether has left
  the contract and before the event is emitted. If it is a contract, its code may call the
  crowdfunding contract again, any number of times and through any account; the contract has
  no guard against this. \<open>withdraw_call\<close> is \<open>withdraw\<close> with these nested calls: each
  is given by its caller, by whether the receiver of its own transfer accepts, and by the
  function called, and runs in the block of the outer call. A nested call that reverts
  changes nothing; when the owner's account lets a failure through, the outer call fails
  (\<open>call_success\<close> is false) and everything is undone. A call made from within a nested
  call comes after that nested call's writes, so it is listed after it.
\<close>

definition in_same_block :: "env \<Rightarrow> address \<times> bool \<times> call \<Rightarrow> env \<times> call" where
  "in_same_block e n =
     (\<lparr> msg_sender = fst n, block_timestamp = block_timestamp e, call_success = fst (snd n) \<rparr>,
      snd (snd n))"

definition withdraw_call ::
  "env \<Rightarrow> (address \<times> bool \<times> call) list \<Rightarrow> crowdfunding \<Rightarrow> error + crowdfunding" where
  "withdraw_call e callbacks s =
    (if msg_sender e \<noteq> owner s then Inl NotOwner
     else if \<not> (deadline s \<le> block_timestamp e \<or> fundraisingGoal s \<le> totalDonations s)
       then Inl WithdrawalNotAvailable
     else
       let balance = this_balance s in
       if balance = 0 then Inl NoFundsToWithdraw
       else if \<not> (call_success e \<and> balance \<le> this_balance s) then Inl TransferFailed
       else
         let received = run (s\<lparr> this_balance := this_balance s - balance \<rparr>)
                            (map (in_same_block e) callbacks)
         in Inr (received\<lparr> events := events received @ [FundsWithdrawn balance] \<rparr>))"

text \<open>
  \<open>reachable t s\<close>: the contract can be in state \<open>s\<close> when the clock shows \<open>t\<close>, after its
  deployment and any sequence of transactions whose block timestamps do not decrease.
\<close>

inductive reachable :: "uint256 \<Rightarrow> crowdfunding \<Rightarrow> bool" where
  deployed: "constructor e goal durationDays bal0 = Inr s \<Longrightarrow> reachable (block_timestamp e) s"
| transact: "reachable t s \<Longrightarrow> t \<le> block_timestamp e \<Longrightarrow>
             reachable (block_timestamp e) (apply_call s (e, c))"

text \<open>
  The specification's milestone state: Voting while \<open>votingActive\<close> is set, afterwards Approved
  or Rejected by the \<open>approved\<close> flag.
\<close>

datatype milestone_state = Voting | Approved | Rejected

definition state_of :: "Milestone \<Rightarrow> milestone_state" where
  "state_of m = (if votingActive m then Voting else if approved m then Approved else Rejected)"

subsection \<open>Ledger sum and traces\<close>

text \<open>The sum of all entries of a balance mapping, over all \<open>2 ^ 160\<close> addresses.\<close>

definition sum_balances :: "(address \<Rightarrow> uint256) \<Rightarrow> nat" where
  "sum_balances f = (\<Sum>a\<in>UNIV. unat (f a))"

definition ledger_inv :: "crowdfunding \<Rightarrow> bool" where
  "ledger_inv s \<longleftrightarrow> sum_balances (donations s) = unat (totalDonations s)"

text \<open>A sequence of transactions is chronological when its block timestamps never decrease.\<close>

fun chronological :: "uint256 \<Rightarrow> (env \<times> call) list \<Rightarrow> bool" where
  "chronological t [] = True"
| "chronological t (ec # cs) =
     (t \<le> block_timestamp (fst ec) \<and> chronological (block_timestamp (fst ec)) cs)"

fun end_time :: "uint256 \<Rightarrow> (env \<times> call) list \<Rightarrow> uint256" where
  "end_time t [] = t"
| "end_time t (ec # cs) = end_time (block_timestamp (fst ec)) cs"

subsection \<open>A sample campaign\<close>

text \<open>
  Account 1 deploys a campaign with goal 10 and a duration of one day at time 0. Accounts 2
  and 3 donate 6 and 4; the owner then proposes a milestone of 3 with two days of voting;
  2 votes yes, 3 votes no; after the vote deadline account 4 finalizes and the owner releases.
\<close>

definition max_uint256 :: uint256 where
  "max_uint256 =
     115792089237316195423570985008687907853269984665640564039457584007913129639935"

definition at_time :: "address \<Rightarrow> uint256 \<Rightarrow> env" where
  "at_time a t = \<lparr> msg_sender = a, block_timestamp = t, call_success = True \<rparr>"

definition refused_at :: "address \<Rightarrow> uint256 \<Rightarrow> env" where
  "refused_at a t = \<lparr> msg_sender = a, block_timestamp = t, call_success = False \<rparr>"

definition campaign0 :: crowdfunding where
  "campaign0 = \<lparr> owner = 1, fundraisingGoal = 10, totalDonations = 0, deadline = 86400,
      campaignActive = True, donations = (\<lambda>_. 0), milestones = [], updates = [],
      hasVoted = (\<lambda>_ _. False), this_balance = 0, events = [] \<rparr>"

definition donated_trace :: "(env \<times> call) list" where
  "donated_trace = [(at_time 2 5, Donate 6), (at_time 3 6, Donate 4)]"

definition proposed_trace :: "(env \<times> call) list" where
  "proposed_trace = donated_trace @ [(at_time 1 10, CreateMilestone ''well'' 3 2)]"

definition voted_trace :: "(env \<times> call) list" where
  "voted_trace = proposed_trace @
     [(at_time 2 20, VoteOnMilestone 0 True), (at_time 3 30, VoteOnMilestone 0 False)]"

definition approved_trace :: "(env \<times> call) list" where
  "approved_trace = voted_trace @ [(at_time 4 172811, FinalizeMilestoneVote 0)]"

definition released_trace :: "(env \<times> call) list" where
  "released_trace = approved_trace @ [(at_time 1 172812, ReleaseMilestoneFunds 0)]"

definition saturated_trace :: "(env \<times> call) list" where
  "saturated_trace = [(at_time 2 5, Donate max_uint256)]"

definition short_trace :: "(env \<times> call) list" where
  "short_trace = [(at_time 2 5, Donate 4), (at_time 3 6, Donate 4)]"

subsection \<open>Invariants of the reachable states\<close>

definition milestone_inv :: "uint256 \<Rightarrow> Milestone \<Rightarrow> bool" where
  "milestone_inv t m \<longleftrightarrow>
     (fundsReleased m \<longrightarrow> approved m) \<and> (approved m \<longrightarrow> \<not> votingActive m) \<and>
     (\<not> votingActive m \<longrightarrow> voteDeadline m < t)"

definition milestones_inv :: "uint256 \<Rightarrow> crowdfunding \<Rightarrow> bool" where
  "milestones_inv t s \<longleftrightarrow>
     (\<forall>i<length (milestones s). milestone_inv t (milestones s ! i))"

definition votes_in_range :: "crowdfunding \<Rightarrow> bool" where
  "votes_in_range s \<longleftrightarrow> (\<forall>j a. hasVoted s j a \<longrightarrow> unat j < length (milestones s))"

definition tally_inv :: "uint256 \<Rightarrow> crowdfunding \<Rightarrow> bool" where
  "tally_inv t s \<longleftrightarrow> (\<exists>f :: address \<Rightarrow> nat.
     (\<forall>a. unat (donations s a) \<le> f a) \<and>
     (\<Sum>a\<in>UNIV. f a) < 2 ^ 256 \<and>
     (t < deadline s \<longrightarrow> (\<forall>a. f a = unat (donations s a))) \<and>
     (\<forall>i<length (milestones s).
        unat (yesVotes (milestones s ! i)) + unat (noVotes (milestones s ! i))
          \<le> (\<Sum>a\<in>{a. hasVoted s (of_nat i) a}. f a)))"

definition contract_inv :: "uint256 \<Rightarrow> crowdfunding \<Rightarrow> bool" where
  "contract_inv t s \<longleftrightarrow> ledger_inv s \<and> milestones_inv t s \<and> votes_in_range s \<and> tally_inv t s"

fun is_vote_on :: "uint256 \<Rightarrow> call \<Rightarrow> bool" where
  "is_vote_on i (VoteOnMilestone j b) = (j = i)"
| "is_vote_on i c = False"

fun successful_votes :: "crowdfunding \<Rightarrow> (env \<times> call) list \<Rightarrow> uint256 \<Rightarrow> address \<Rightarrow> nat" where
  "successful_votes s [] i a = 0"
| "successful_votes s (ec # cs) i a =
     (if msg_sender (fst ec) = a \<and> is_vote_on i (snd ec) \<and>
         \<not> isl (exec (fst ec) (snd ec) s)
      then 1 else 0) + successful_votes (apply_call s ec) cs i a"

section \<open>Auxiliary lemmas\<close>

lemma unat_add_no_overflow:
  "\<not> add_overflows a b \<Longrightarrow> unat (a + b) = unat a + unat b"
  by (simp add: add_overflows_def unat_add_lem [THEN iffD1])

lemma unat_mul_no_overflow:
  "\<not> mul_overflows a b \<Longrightarrow> unat (a * b) = unat a * unat b"
  by (simp add: mul_overflows_def unat_mult_lem [THEN iffD1])

lemma unat_one_day: "unat one_day = 86400"
  by (simp add: one_day_def)

subsection \<open>Evaluating the sample campaign\<close>

lemmas sample_defs = donated_trace_def proposed_trace_def voted_trace_def approved_trace_def
  released_trace_def saturated_trace_def short_trace_def max_uint256_def at_time_def
  refused_at_def campaign0_def

lemmas contract_defs = run_def apply_call_def constructor_def receive_def donate_def
  createMilestone_def voteOnMilestone_def finalizeMilestoneVote_def releaseMilestoneFunds_def
  postUpdate_def withdraw_def refund_def endCampaign_def add_overflows_def mul_overflows_def
  sub_underflows_def one_day_def Let_def

lemma campaign0_deployed: "constructor (at_time 1 0) 10 1 0 = Inr campaign0"
  by (simp add: sample_defs contract_defs)

lemma reachable_campaign0: "reachable 0 campaign0"
  using reachable.deployed [OF campaign0_deployed] by (simp add: at_time_def)

lemma reachable_run:
  "reachable t s \<Longrightarrow> chronological t cs \<Longrightarrow> reachable (end_time t cs) (run s cs)"
proof (induction cs arbitrary: t s)
  case Nil
  then show ?case by (simp add: run_def)
next
  case (Cons ec cs)
  from Cons.prems have "reachable (block_timestamp (fst ec)) (apply_call s (fst ec, snd ec))"
    by (intro reachable.transact) auto
  with Cons.IH [of "block_timestamp (fst ec)" "apply_call s ec"] Cons.prems(2)
  show ?case by (simp add: run_def)
qed

lemma reachable_donated: "reachable 6 (run campaign0 donated_trace)"
  using reachable_run [OF reachable_campaign0, of donated_trace] by (simp add: sample_defs)

lemma reachable_saturated: "reachable 5 (run campaign0 saturated_trace)"
  using reachable_run [OF reachable_campaign0, of saturated_trace] by (simp add: sample_defs)

subsection \<open>The ledger invariant\<close>

lemma sum_balances_update:
  "sum_balances (f(x := v)) + unat (f x) = sum_balances f + unat v"
proof -
  have "sum_balances (f(x := v)) = unat v + (\<Sum>a\<in>UNIV - {x}. unat (f a))"
    unfolding sum_balances_def by (subst sum.remove [of _ x]) auto
  moreover have "sum_balances f = unat (f x) + (\<Sum>a\<in>UNIV - {x}. unat (f a))"
    unfolding sum_balances_def by (subst sum.remove [of _ x]) auto
  ultimately show ?thesis by simp
qed


lemma ledger_inv_constructor: "constructor e g d b = Inr s \<Longrightarrow> ledger_inv s"
  by (auto simp: constructor_def ledger_inv_def sum_balances_def split: if_splits)

lemma ledger_inv_donate:
  assumes "donate e v s = Inr s'" and "ledger_inv s"
  shows "ledger_inv s'"
proof -
  let ?a = "msg_sender e"
  from assms(1) have o1: "\<not> add_overflows (donations s ?a) v"
    and o2: "\<not> add_overflows (totalDonations s) v"
    and d: "donations s' = (donations s)(?a := donations s ?a + v)"
    and t: "totalDonations s' = totalDonations s + v"
    by (auto simp: donate_def split: if_splits)
  from sum_balances_update [of "donations s" ?a "donations s ?a + v"]
  have "sum_balances (donations s') = sum_balances (donations s) + unat v"
    using o1 by (simp add: d unat_add_no_overflow)
  with assms(2) o2 show ?thesis
    by (simp add: ledger_inv_def t unat_add_no_overflow)
qed

lemma ledger_inv_refund:
  assumes "refund e s = Inr s'" and "ledger_inv s"
  shows "ledger_inv s'"
proof -
  let ?a = "msg_sender e"
  from assms(1) have le: "donations s ?a \<le> totalDonations s"
    and d: "donations s' = (donations s)(?a := 0)"
    and t: "totalDonations s' = totalDonations s - donations s ?a"
    by (auto simp: refund_def Let_def sub_underflows_def split: if_splits)
  from sum_balances_update [of "donations s" ?a 0]
  have "sum_balances (donations s') + unat (donations s ?a) = sum_balances (donations s)"
    by (simp add: d)
  with assms(2) le show ?thesis
    by (simp add: ledger_inv_def t unat_sub)
qed

lemma ledger_inv_exec:
  assumes "exec e c s = Inr s'" and "ledger_inv s"
  shows "ledger_inv s'"
proof (cases c)
  case (Donate v)
  with assms show ?thesis by (simp add: ledger_inv_donate)
next
  case Refund
  with assms show ?thesis by (simp add: ledger_inv_refund)
next
  case (VoteOnMilestone i b)
  with assms show ?thesis
    by (auto simp: voteOnMilestone_def ledger_inv_def Let_def split: if_splits)
qed (use assms in \<open>auto simp: ledger_inv_def receive_def createMilestone_def
      finalizeMilestoneVote_def releaseMilestoneFunds_def postUpdate_def withdraw_def
      endCampaign_def Let_def split: if_splits\<close>)

lemma ledger_inv_apply_call: "ledger_inv s \<Longrightarrow> ledger_inv (apply_call s ec)"
  by (cases "exec (fst ec) (snd ec) s") (auto simp: apply_call_def ledger_inv_exec)

lemma ledger_inv_reachable: "reachable t s \<Longrightarrow> ledger_inv s"
  by (induction rule: reachable.induct)
     (auto simp: ledger_inv_constructor ledger_inv_apply_call)

subsection \<open>Milestone and tally invariants\<close>

lemmas exec_defs = receive_def donate_def createMilestone_def voteOnMilestone_def
  finalizeMilestoneVote_def releaseMilestoneFunds_def postUpdate_def withdraw_def refund_def
  endCampaign_def Let_def

lemma milestone_inv_later: "milestone_inv t m \<Longrightarrow> t \<le> t' \<Longrightarrow> milestone_inv t' m"
  by (auto simp: milestone_inv_def)

lemma milestones_inv_later: "milestones_inv t s \<Longrightarrow> t \<le> t' \<Longrightarrow> milestones_inv t' s"
  by (auto simp: milestones_inv_def intro: milestone_inv_later)

lemma milestones_inv_constructor: "constructor e g d b = Inr s \<Longrightarrow> milestones_inv t s"
  by (auto simp: constructor_def milestones_inv_def split: if_splits)

lemma milestones_inv_exec:
  assumes "exec e c s = Inr s'" and "milestones_inv t s" and "t \<le> block_timestamp e"
  shows "milestones_inv (block_timestamp e) s'"
proof -
  from assms(2,3) have inv: "milestones_inv (block_timestamp e) s"
    by (rule milestones_inv_later)
  show ?thesis
  proof (cases c)
    case (CreateMilestone d a n)
    with assms(1) inv show ?thesis
      by (auto simp: createMilestone_def milestones_inv_def milestone_inv_def nth_append
          less_Suc_eq split: if_splits)
  next
    case (VoteOnMilestone i b)
    with assms(1) inv show ?thesis
      by (auto simp: voteOnMilestone_def Let_def milestones_inv_def milestone_inv_def
          nth_list_update split: if_splits)
  next
    case (FinalizeMilestoneVote i)
    with assms(1) inv show ?thesis
      by (auto simp: finalizeMilestoneVote_def Let_def milestones_inv_def milestone_inv_def
          nth_list_update split: if_splits)
  next
    case (ReleaseMilestoneFunds i)
    with assms(1) inv show ?thesis
      by (auto simp: releaseMilestoneFunds_def Let_def milestones_inv_def milestone_inv_def
          nth_list_update split: if_splits)
  qed (use assms(1) inv in \<open>auto simp: receive_def donate_def postUpdate_def withdraw_def
        refund_def endCampaign_def Let_def milestones_inv_def split: if_splits\<close>)
qed

lemma votes_in_range_constructor: "constructor e g d b = Inr s \<Longrightarrow> votes_in_range s"
  by (auto simp: constructor_def votes_in_range_def split: if_splits)

lemma exec_length_milestones:
  "exec e c s = Inr s' \<Longrightarrow> length (milestones s) \<le> length (milestones s')"
  by (cases c) (auto simp: exec_defs split: if_splits)

lemma exec_owner: "exec e c s = Inr s' \<Longrightarrow> owner s' = owner s"
  by (cases c) (auto simp: exec_defs split: if_splits)

lemma exec_flags_mono:
  "exec e c s = Inr s' \<Longrightarrow> i < length (milestones s) \<Longrightarrow>
     (fundsReleased (milestones s ! i) \<longrightarrow> fundsReleased (milestones s' ! i)) \<and>
     (approved (milestones s ! i) \<longrightarrow> approved (milestones s' ! i)) \<and>
     (\<not> votingActive (milestones s ! i) \<longrightarrow> \<not> votingActive (milestones s' ! i))"
  by (cases c) (auto simp: exec_defs nth_list_update nth_append split: if_splits)

lemma exec_hasVoted_mono:
  "exec e c s = Inr s' \<Longrightarrow> hasVoted s j a \<Longrightarrow> hasVoted s' j a"
  by (cases c) (auto simp: exec_defs split: if_splits)

lemma exec_newly_released:
  "exec e c s = Inr s' \<Longrightarrow> i < length (milestones s') \<Longrightarrow> fundsReleased (milestones s' ! i) \<Longrightarrow>
   \<not> (i < length (milestones s) \<and> fundsReleased (milestones s ! i)) \<Longrightarrow>
   i < length (milestones s) \<and> approved (milestones s ! i) \<and>
   (\<exists>j. unat j = i \<and> c = ReleaseMilestoneFunds j)"
  by (cases c) (auto simp: exec_defs nth_list_update nth_append split: if_splits)

lemma exec_hasVoted_new:
  "exec e c s = Inr s' \<Longrightarrow> hasVoted s' j a \<Longrightarrow>
     hasVoted s j a \<or> unat j < length (milestones s)"
  by (cases c) (auto simp: exec_defs split: if_splits)

lemma votes_in_range_exec:
  assumes "exec e c s = Inr s'" and "votes_in_range s"
  shows "votes_in_range s'"
  unfolding votes_in_range_def
proof (intro allI impI)
  fix j a
  assume "hasVoted s' j a"
  with exec_hasVoted_new [OF assms(1)] assms(2) have "unat j < length (milestones s)"
    by (auto simp: votes_in_range_def)
  with exec_length_milestones [OF assms(1)] show "unat j < length (milestones s')"
    by simp
qed

lemma tally_inv_constructor: "constructor e g d b = Inr s \<Longrightarrow> tally_inv t s"
  unfolding tally_inv_def
  by (rule exI [of _ "\<lambda>_. 0"]) (auto simp: constructor_def split: if_splits)

lemma tally_inv_later:
  assumes "tally_inv t s" and "t \<le> t'"
  shows "tally_inv t' s"
proof -
  from assms(1) obtain f :: "address \<Rightarrow> nat" where
    "\<forall>a. unat (donations s a) \<le> f a" and "(\<Sum>a\<in>UNIV. f a) < 2 ^ 256" and
    "t < deadline s \<longrightarrow> (\<forall>a. f a = unat (donations s a))" and
    "\<forall>i<length (milestones s).
        unat (yesVotes (milestones s ! i)) + unat (noVotes (milestones s ! i))
          \<le> (\<Sum>a\<in>{a. hasVoted s (of_nat i) a}. f a)"
    unfolding tally_inv_def by blast
  with assms(2) show ?thesis
    unfolding tally_inv_def by (intro exI [of _ f]) auto
qed

lemma tally_inv_no_overflow:
  assumes "tally_inv t s" and "i < length (milestones s)"
  shows "\<not> add_overflows (yesVotes (milestones s ! i)) (noVotes (milestones s ! i))"
proof -
  from assms obtain f :: "address \<Rightarrow> nat" where
    bound: "(\<Sum>a\<in>UNIV. f a) < 2 ^ 256" and
    tally: "unat (yesVotes (milestones s ! i)) + unat (noVotes (milestones s ! i))
          \<le> (\<Sum>a\<in>{a. hasVoted s (of_nat i) a}. f a)"
    unfolding tally_inv_def by blast
  have "(\<Sum>a\<in>{a. hasVoted s (of_nat i) a}. f a) \<le> (\<Sum>a\<in>UNIV. f a)"
    by (rule sum_mono2) auto
  with bound tally show ?thesis
    by (simp add: add_overflows_def)
qed

lemma tally_inv_donate:
  assumes ex: "donate e v s = Inr s'" and inv: "tally_inv t s" and le: "t \<le> block_timestamp e"
    and led: "ledger_inv s"
  shows "tally_inv (block_timestamp e) s'"
proof -
  from ex have before: "block_timestamp e < deadline s"
    and o1: "\<not> add_overflows (donations s (msg_sender e)) v"
    and d: "donations s' = (donations s)(msg_sender e := donations s (msg_sender e) + v)"
    and same: "milestones s' = milestones s" "hasVoted s' = hasVoted s"
    by (auto simp: donate_def split: if_splits)
  from before le have "t < deadline s" by simp
  with inv have tally: "\<forall>i<length (milestones s).
        unat (yesVotes (milestones s ! i)) + unat (noVotes (milestones s ! i))
          \<le> (\<Sum>a\<in>{a. hasVoted s (of_nat i) a}. unat (donations s a))"
    unfolding tally_inv_def by auto
  have grow: "unat (donations s a) \<le> unat (donations s' a)" for a
    using o1 by (simp add: d unat_add_no_overflow)
  have "ledger_inv s'" using ex led by (rule ledger_inv_donate)
  then have "(\<Sum>a\<in>UNIV. unat (donations s' a)) = unat (totalDonations s')"
    by (simp add: ledger_inv_def sum_balances_def)
  moreover have "unat (totalDonations s') < 2 ^ 256"
    using unsigned_less [of "totalDonations s'"] by simp
  ultimately have bound: "(\<Sum>a\<in>UNIV. unat (donations s' a)) < 2 ^ 256"
    by simp
  have "unat (yesVotes (milestones s' ! i)) + unat (noVotes (milestones s' ! i))
          \<le> (\<Sum>a\<in>{a. hasVoted s' (of_nat i) a}. unat (donations s' a))"
    if "i < length (milestones s')" for i
  proof -
    have "(\<Sum>a\<in>{a. hasVoted s (of_nat i) a}. unat (donations s a))
        \<le> (\<Sum>a\<in>{a. hasVoted s (of_nat i) a}. unat (donations s' a))"
      by (rule sum_mono) (rule grow)
    with tally that show ?thesis by (simp add: same) (meson le_trans)
  qed
  with bound show ?thesis
    unfolding tally_inv_def by (intro exI [of _ "\<lambda>a. unat (donations s' a)"]) auto
qed

lemma tally_inv_vote:
  assumes ex: "voteOnMilestone e j b s = Inr s'" and inv: "tally_inv t s"
    and le: "t \<le> block_timestamp e"
  shows "tally_inv (block_timestamp e) s'"
proof -
  let ?a = "msg_sender e" and ?m = "milestones s ! unat j"
  let ?w = "donations s ?a"
  from ex have range: "unat j < length (milestones s)" and fresh: "\<not> hasVoted s j ?a"
    and hv: "hasVoted s' = (hasVoted s)(j := (hasVoted s j)(?a := True))"
    and same: "donations s' = donations s" "deadline s' = deadline s"
    by (auto simp: voteOnMilestone_def Let_def split: if_splits)
  from ex obtain m' where ms: "milestones s' = (milestones s)[unat j := m']"
    and m': "unat (yesVotes m') + unat (noVotes m')
             = unat (yesVotes ?m) + unat (noVotes ?m) + unat ?w"
    by (auto simp: voteOnMilestone_def Let_def unat_add_no_overflow split: if_splits)
  from inv obtain f :: "address \<Rightarrow> nat" where
    f1: "\<forall>a. unat (donations s a) \<le> f a" and
    f2: "(\<Sum>a\<in>UNIV. f a) < 2 ^ 256" and
    f3: "t < deadline s \<longrightarrow> (\<forall>a. f a = unat (donations s a))" and
    f4: "\<forall>i<length (milestones s).
        unat (yesVotes (milestones s ! i)) + unat (noVotes (milestones s ! i))
          \<le> (\<Sum>a\<in>{a. hasVoted s (of_nat i) a}. f a)"
    unfolding tally_inv_def by blast
  have "unat (yesVotes (milestones s' ! i)) + unat (noVotes (milestones s' ! i))
          \<le> (\<Sum>a\<in>{a. hasVoted s' (of_nat i) a}. f a)"
    if i: "i < length (milestones s')" for i
  proof (cases "i = unat j")
    case True
    then have j: "of_nat i = j" by simp
    have set: "{a. hasVoted s' j a} = insert ?a {a. hasVoted s j a}"
      by (auto simp: hv)
    have "(\<Sum>a\<in>{a. hasVoted s' j a}. f a) = f ?a + (\<Sum>a\<in>{a. hasVoted s j a}. f a)"
      unfolding set using fresh by (subst sum.insert) auto
    moreover from f4 range True j
    have "unat (yesVotes ?m) + unat (noVotes ?m) \<le> (\<Sum>a\<in>{a. hasVoted s j a}. f a)"
      by auto
    moreover from f1 have "unat ?w \<le> f ?a" by simp
    ultimately show ?thesis
      using m' range True j by (simp add: ms)
  next
    case False
    have "(\<Sum>a\<in>{a. hasVoted s (of_nat i) a}. f a) \<le> (\<Sum>a\<in>{a. hasVoted s' (of_nat i) a}. f a)"
      by (rule sum_mono2) (auto simp: hv)
    with f4 i False show ?thesis
      by (simp add: ms) (meson le_trans)
  qed
  with f1 f2 f3 le show ?thesis
    unfolding tally_inv_def by (intro exI [of _ f]) (auto simp: same)
qed

lemma tally_inv_refund:
  assumes ex: "refund e s = Inr s'" and inv: "tally_inv t s" and le: "t \<le> block_timestamp e"
  shows "tally_inv (block_timestamp e) s'"
proof -
  from ex have after: "\<not> block_timestamp e < deadline s'"
    and d: "donations s' = (donations s)(msg_sender e := 0)"
    and same: "milestones s' = milestones s" "hasVoted s' = hasVoted s"
    by (auto simp: refund_def Let_def split: if_splits)
  from inv obtain f :: "address \<Rightarrow> nat" where
    f1: "\<forall>a. unat (donations s a) \<le> f a" and
    f2: "(\<Sum>a\<in>UNIV. f a) < 2 ^ 256" and
    f4: "\<forall>i<length (milestones s).
        unat (yesVotes (milestones s ! i)) + unat (noVotes (milestones s ! i))
          \<le> (\<Sum>a\<in>{a. hasVoted s (of_nat i) a}. f a)"
    unfolding tally_inv_def by blast
  from f1 f2 f4 after show ?thesis
    unfolding tally_inv_def by (intro exI [of _ f]) (auto simp: same d)
qed

lemma tally_inv_createMilestone:
  assumes ex: "createMilestone e d a n s = Inr s'" and inv: "tally_inv t s"
    and le: "t \<le> block_timestamp e"
  shows "tally_inv (block_timestamp e) s'"
proof -
  from ex obtain m where ms: "milestones s' = milestones s @ [m]"
    and m: "yesVotes m = 0" "noVotes m = 0"
    and same: "donations s' = donations s" "hasVoted s' = hasVoted s" "deadline s' = deadline s"
    by (auto simp: createMilestone_def split: if_splits)
  from inv obtain f :: "address \<Rightarrow> nat" where
    f1: "\<forall>a. unat (donations s a) \<le> f a" and
    f2: "(\<Sum>a\<in>UNIV. f a) < 2 ^ 256" and
    f3: "t < deadline s \<longrightarrow> (\<forall>a. f a = unat (donations s a))" and
    f4: "\<forall>i<length (milestones s).
        unat (yesVotes (milestones s ! i)) + unat (noVotes (milestones s ! i))
          \<le> (\<Sum>a\<in>{a. hasVoted s (of_nat i) a}. f a)"
    unfolding tally_inv_def by blast
  from f1 f2 f3 f4 le m show ?thesis
    unfolding tally_inv_def
    by (intro exI [of _ f]) (auto simp: same ms nth_append less_Suc_eq)
qed

lemma tally_inv_same_tallies:
  assumes inv: "tally_inv t s" and le: "t \<le> t'"
    and same: "donations s' = donations s" "hasVoted s' = hasVoted s" "deadline s' = deadline s"
    and len: "length (milestones s') = length (milestones s)"
    and tallies: "\<forall>i<length (milestones s).
       yesVotes (milestones s' ! i) = yesVotes (milestones s ! i) \<and>
       noVotes (milestones s' ! i) = noVotes (milestones s ! i)"
  shows "tally_inv t' s'"
proof -
  from inv obtain f :: "address \<Rightarrow> nat" where
    f1: "\<forall>a. unat (donations s a) \<le> f a" and
    f2: "(\<Sum>a\<in>UNIV. f a) < 2 ^ 256" and
    f3: "t < deadline s \<longrightarrow> (\<forall>a. f a = unat (donations s a))" and
    f4: "\<forall>i<length (milestones s).
        unat (yesVotes (milestones s ! i)) + unat (noVotes (milestones s ! i))
          \<le> (\<Sum>a\<in>{a. hasVoted s (of_nat i) a}. f a)"
    unfolding tally_inv_def by blast
  from f1 f2 f3 f4 le tallies show ?thesis
    unfolding tally_inv_def
    by (intro exI [of _ f]) (auto simp: same len)
qed

lemma tally_inv_exec:
  assumes ex: "exec e c s = Inr s'" and inv: "tally_inv t s" and le: "t \<le> block_timestamp e"
    and led: "ledger_inv s"
  shows "tally_inv (block_timestamp e) s'"
proof (cases c)
  case (Donate v)
  with ex inv le led show ?thesis by (simp add: tally_inv_donate)
next
  case (CreateMilestone d a n)
  with ex inv le show ?thesis by (simp add: tally_inv_createMilestone)
next
  case (VoteOnMilestone j b)
  with ex inv le show ?thesis by (simp add: tally_inv_vote)
next
  case Refund
  with ex inv le show ?thesis by (simp add: tally_inv_refund)
next
  case (FinalizeMilestoneVote j)
  with ex show ?thesis
    by (intro tally_inv_same_tallies [OF inv le])
       (auto simp: finalizeMilestoneVote_def Let_def nth_list_update split: if_splits)
next
  case (ReleaseMilestoneFunds j)
  with ex show ?thesis
    by (intro tally_inv_same_tallies [OF inv le])
       (auto simp: releaseMilestoneFunds_def Let_def nth_list_update split: if_splits)
qed (use ex in \<open>auto intro!: tally_inv_same_tallies [OF inv le]
      simp: receive_def postUpdate_def withdraw_def endCampaign_def Let_def split: if_splits\<close>)

lemma contract_inv_reachable: "reachable t s \<Longrightarrow> contract_inv t s"
proof (induction rule: reachable.induct)
  case (deployed e goal durationDays bal0 s)
  then show ?case
    by (simp add: contract_inv_def ledger_inv_constructor milestones_inv_constructor
        votes_in_range_constructor tally_inv_constructor)
next
  case (transact t s e c)
  show ?case
  proof (cases "exec e c s")
    case (Inl err)
    with transact show ?thesis
      by (auto simp: apply_call_def contract_inv_def
          intro: milestones_inv_later tally_inv_later)
  next
    case (Inr s')
    with transact show ?thesis
      by (auto simp: apply_call_def contract_inv_def
          intro: ledger_inv_exec milestones_inv_exec votes_in_range_exec tally_inv_exec)
  qed
qed

lemma apply_call_cases:
  obtains (reverted) err where "exec (fst ec) (snd ec) s = Inl err" "apply_call s ec = s"
  | (completed) s' where "exec (fst ec) (snd ec) s = Inr s'" "apply_call s ec = s'"
  by (cases "exec (fst ec) (snd ec) s") (auto simp: apply_call_def)

lemma apply_call_flags_mono:
  assumes "i < length (milestones s)"
  shows "i < length (milestones (apply_call s ec)) \<and>
     (fundsReleased (milestones s ! i) \<longrightarrow> fundsReleased (milestones (apply_call s ec) ! i)) \<and>
     (approved (milestones s ! i) \<longrightarrow> approved (milestones (apply_call s ec) ! i)) \<and>
     (\<not> votingActive (milestones s ! i) \<longrightarrow> \<not> votingActive (milestones (apply_call s ec) ! i))"
proof (cases rule: apply_call_cases [where s = s and ec = ec])
  case (reverted err)
  with assms show ?thesis by simp
next
  case (completed s')
  with assms exec_flags_mono [OF completed(1) assms] exec_length_milestones [OF completed(1)]
  show ?thesis by simp
qed

lemma run_flags_mono:
  "i < length (milestones s) \<Longrightarrow>
     i < length (milestones (run s cs)) \<and>
     (fundsReleased (milestones s ! i) \<longrightarrow> fundsReleased (milestones (run s cs) ! i)) \<and>
     (approved (milestones s ! i) \<longrightarrow> approved (milestones (run s cs) ! i)) \<and>
     (\<not> votingActive (milestones s ! i) \<longrightarrow> \<not> votingActive (milestones (run s cs) ! i))"
proof (induction cs arbitrary: s)
  case Nil
  then show ?case by (simp add: run_def)
next
  case (Cons ec cs)
  from apply_call_flags_mono [OF Cons.prems, of ec] Cons.IH [of "apply_call s ec"]
  show ?case by (simp add: run_def)
qed

lemma apply_call_owner: "owner (apply_call s ec) = owner s"
  by (cases rule: apply_call_cases [where s = s and ec = ec]) (auto simp: exec_owner)

lemma run_owner: "owner (run s cs) = owner s"
  by (induction cs arbitrary: s) (simp_all add: run_def apply_call_owner)

lemma apply_call_hasVoted_mono: "hasVoted s j a \<Longrightarrow> hasVoted (apply_call s ec) j a"
  by (cases rule: apply_call_cases [where s = s and ec = ec]) (auto simp: exec_hasVoted_mono)

lemma run_hasVoted_mono: "hasVoted s j a \<Longrightarrow> hasVoted (run s cs) j a"
  by (induction cs arbitrary: s) (simp_all add: run_def apply_call_hasVoted_mono)

lemma vote_sets_flag:
  "voteOnMilestone e i b s = Inr s' \<Longrightarrow> hasVoted s' i (msg_sender e) \<and> \<not> hasVoted s i (msg_sender e)"
  by (auto simp: voteOnMilestone_def Let_def split: if_splits)

lemma vote_fails_after_flag:
  "hasVoted s i (msg_sender e) \<Longrightarrow> isl (voteOnMilestone e i b s)"
  by (auto simp: voteOnMilestone_def Let_def)

lemma no_vote_after_flag:
  "hasVoted s i a \<Longrightarrow> successful_votes s cs i a = 0"
proof (induction cs arbitrary: s)
  case Nil
  then show ?case by simp
next
  case (Cons ec cs)
  have "\<not> (msg_sender (fst ec) = a \<and> is_vote_on i (snd ec) \<and>
         \<not> isl (exec (fst ec) (snd ec) s))"
    using Cons.prems by (cases "snd ec") (auto simp: vote_fails_after_flag)
  moreover have "successful_votes (apply_call s ec) cs i a = 0"
    using Cons.prems by (intro Cons.IH apply_call_hasVoted_mono)
  ultimately show ?case by simp
qed

lemma successful_votes_le_1: "successful_votes s cs i a \<le> 1"
proof (induction cs arbitrary: s)
  case Nil
  then show ?case by simp
next
  case (Cons ec cs)
  show ?case
  proof (cases "msg_sender (fst ec) = a \<and> is_vote_on i (snd ec) \<and>
         \<not> isl (exec (fst ec) (snd ec) s)")
    case True
    then obtain b s' where "voteOnMilestone (fst ec) i b s = Inr s'" "apply_call s ec = s'"
      by (cases "snd ec"; cases "exec (fst ec) (snd ec) s") (auto simp: apply_call_def)
    with True have "hasVoted (apply_call s ec) i a"
      by (auto dest: vote_sets_flag)
    then have "successful_votes (apply_call s ec) cs i a = 0"
      by (rule no_vote_after_flag)
    with True show ?thesis by simp
  next
    case False
    with Cons.IH [of "apply_call s ec"] show ?thesis by auto
  qed
qed

lemma reachable_facts:
  assumes "reachable t s"
  shows "ledger_inv s" and "milestones_inv t s" and "votes_in_range s" and "tally_inv t s"
  using contract_inv_reachable [OF assms] by (simp_all add: contract_inv_def)

lemma reachable_state_of:
  assumes "reachable t s" and "i < length (milestones s)"
  shows "approved (milestones s ! i) \<Longrightarrow> state_of (milestones s ! i) = Approved"
    and "fundsReleased (milestones s ! i) \<Longrightarrow> approved (milestones s ! i)"
    and "\<not> votingActive (milestones s ! i) \<Longrightarrow> voteDeadline (milestones s ! i) < t"
  using reachable_facts(2) [OF assms(1)] assms(2)
  by (auto simp: milestones_inv_def milestone_inv_def state_of_def)

lemma release_after_released:
  assumes "unat j < length (milestones s)" and "fundsReleased (milestones s ! unat j)"
    and "approved (milestones s ! unat j)"
  shows "isl (releaseMilestoneFunds e j s)"
    and "msg_sender e = owner s \<Longrightarrow> releaseMilestoneFunds e j s = Inl FundsAlreadyReleased"
  using assms by (auto simp: releaseMilestoneFunds_def Let_def)

lemma release_sets_flag:
  "releaseMilestoneFunds e j s = Inr s' \<Longrightarrow>
     unat j < length (milestones s') \<and> fundsReleased (milestones s' ! unat j) \<and>
     approved (milestones s' ! unat j) \<and> owner s' = owner s"
  by (auto simp: releaseMilestoneFunds_def Let_def split: if_splits)

lemma finalize_result:
  assumes "unat i < length (milestones s)" and "votingActive (milestones s ! unat i)"
    and "\<not> approved (milestones s ! unat i)"
    and "voteDeadline (milestones s ! unat i) < block_timestamp e"
    and "\<not> add_overflows (yesVotes (milestones s ! unat i)) (noVotes (milestones s ! unat i))"
  shows "\<exists>s'. finalizeMilestoneVote e i s = Inr s' \<and>
      length (milestones s') = length (milestones s) \<and>
      \<not> votingActive (milestones s' ! unat i) \<and>
      approved (milestones s' ! unat i) =
        (noVotes (milestones s ! unat i) < yesVotes (milestones s ! unat i)) \<and>
      yesVotes (milestones s' ! unat i) = yesVotes (milestones s ! unat i) \<and>
      noVotes (milestones s' ! unat i) = noVotes (milestones s ! unat i) \<and>
      (\<forall>k<length (milestones s). k \<noteq> unat i \<longrightarrow> milestones s' ! k = milestones s ! k)"
proof -
  let ?m = "milestones s ! unat i"
  have pos: "0 < yesVotes ?m + noVotes ?m" if "noVotes ?m < yesVotes ?m"
  proof -
    from that have "0 < unat (yesVotes ?m)"
      by (simp add: word_less_nat_alt)
    with assms(5) have "0 < unat (yesVotes ?m + noVotes ?m)"
      by (simp add: unat_add_no_overflow)
    then show ?thesis by (simp add: word_less_nat_alt)
  qed
  show ?thesis
    using assms pos
    by (auto simp: finalizeMilestoneVote_def Let_def not_le)
qed

lemma reachable_proposed: "reachable 10 (run campaign0 proposed_trace)"
  using reachable_run [OF reachable_campaign0, of proposed_trace] by (simp add: sample_defs)

lemma reachable_voted: "reachable 30 (run campaign0 voted_trace)"
  using reachable_run [OF reachable_campaign0, of voted_trace] by (simp add: sample_defs)

lemma reachable_approved: "reachable 172811 (run campaign0 approved_trace)"
  using reachable_run [OF reachable_campaign0, of approved_trace] by (simp add: sample_defs)

lemma reachable_released: "reachable 172812 (run campaign0 released_trace)"
  using reachable_run [OF reachable_campaign0, of released_trace] by (simp add: sample_defs)


subsection \<open>Nested calls during a withdrawal\<close>

lemma withdraw_call_no_callbacks: "withdraw_call e [] s = withdraw e s"
  by (simp add: withdraw_call_def withdraw_def run_def Let_def)

lemma exec_immutables:
  "exec e c s = Inr s' \<Longrightarrow>
     owner s' = owner s \<and> fundraisingGoal s' = fundraisingGoal s \<and> deadline s' = deadline s"
  by (cases c) (auto simp: exec_defs split: if_splits)

lemma apply_call_immutables:
  "owner (apply_call s ec) = owner s \<and> fundraisingGoal (apply_call s ec) = fundraisingGoal s \<and>
   deadline (apply_call s ec) = deadline s"
  by (cases rule: apply_call_cases [where s = s and ec = ec]) (auto dest: exec_immutables)

lemma run_immutables:
  "owner (run s cs) = owner s \<and> fundraisingGoal (run s cs) = fundraisingGoal s \<and>
   deadline (run s cs) = deadline s"
  by (induction cs arbitrary: s) (simp_all add: run_def apply_call_immutables)

lemma contract_inv_apply_call:
  assumes "contract_inv t s" and "t \<le> block_timestamp (fst ec)"
  shows "contract_inv (block_timestamp (fst ec)) (apply_call s ec)"
proof (cases rule: apply_call_cases [where s = s and ec = ec])
  case (reverted err)
  with assms show ?thesis
    by (auto simp: contract_inv_def intro: milestones_inv_later tally_inv_later)
next
  case (completed s')
  with assms show ?thesis
    by (auto simp: contract_inv_def
        intro: ledger_inv_exec milestones_inv_exec votes_in_range_exec tally_inv_exec)
qed

lemma contract_inv_same_block:
  "contract_inv t s \<Longrightarrow> \<forall>ec\<in>set cs. block_timestamp (fst ec) = t \<Longrightarrow> contract_inv t (run s cs)"
proof (induction cs arbitrary: s)
  case Nil
  then show ?case by (simp add: run_def)
next
  case (Cons ec cs)
  from Cons.prems contract_inv_apply_call [of t s ec] have "contract_inv t (apply_call s ec)"
    by simp
  with Cons.IH [of "apply_call s ec"] Cons.prems(2) show ?case
    by (simp add: run_def)
qed

lemma contract_inv_balance_events:
  "contract_inv t (s\<lparr>this_balance := b\<rparr>) = contract_inv t s"
  "contract_inv t (s\<lparr>events := ev\<rparr>) = contract_inv t s"
  by (simp_all add: contract_inv_def ledger_inv_def milestones_inv_def votes_in_range_def
      tally_inv_def)

lemma withdraw_call_keeps_invariants:
  assumes "reachable t s" and "t \<le> block_timestamp e" and "withdraw_call e callbacks s = Inr s'"
  shows "contract_inv (block_timestamp e) s'"
proof -
  let ?r = "run (s\<lparr>this_balance := 0\<rparr>) (map (in_same_block e) callbacks)"
  from assms(3) have s': "s' = ?r\<lparr> events := events ?r @ [FundsWithdrawn (this_balance s)] \<rparr>"
    by (auto simp: withdraw_call_def Let_def split: if_splits)
  from contract_inv_reachable [OF assms(1)] assms(2)
  have "contract_inv (block_timestamp e) s"
    by (auto simp: contract_inv_def intro: milestones_inv_later tally_inv_later)
  then have "contract_inv (block_timestamp e) (s\<lparr>this_balance := 0\<rparr>)"
    by (simp add: contract_inv_balance_events)
  then have "contract_inv (block_timestamp e) ?r"
    by (rule contract_inv_same_block) (auto simp: in_same_block_def)
  with s' show ?thesis
    by (simp add: contract_inv_balance_events)
qed

section \<open>The claims\<close>

text \<open>
  C1. In every state the contract can reach from its deployment by any sequence of calls
  (\<open>donate\<close>, \<open>createMilestone\<close>, \<open>voteOnMilestone\<close>, \<open>finalizeMilestoneVote\<close>,
  \<open>releaseMilestoneFunds\<close>, \<open>postUpdate\<close>, \<open>withdraw\<close>, \<open>refund\<close>, \<open>endCampaign\<close>, reverted
  or not), the sum of all entries of \<open>donations\<close> equals \<open>totalDonations\<close>.
\<close>

theorem ledger_conservation:
  "reachable t s \<Longrightarrow> (\<Sum>a\<in>UNIV. unat (donations s a)) = unat (totalDonations s)"
  using ledger_inv_reachable [of t s] by (simp add: ledger_inv_def sum_balances_def)

theorem ledger_conservation_witness:
  "reachable 6 (run campaign0 donated_trace) \<and>
   (\<Sum>a\<in>UNIV. unat (donations (run campaign0 donated_trace) a)) = 10"
proof -
  have "unat (totalDonations (run campaign0 donated_trace)) = 10"
    by (simp add: sample_defs contract_defs)
  with ledger_conservation [OF reachable_donated] reachable_donated show ?thesis
    by simp
qed

text \<open>
  C2. For every milestone of a reachable state: once \<open>fundsReleased\<close> is set it stays set
  through any further sequence of calls, and it implies that the milestone is Approved; no
  call releases such a milestone again (\<open>releaseMilestoneFunds\<close> reverts for every caller,
  for the owner with \<open>FundsAlreadyReleased\<close>). A call that sets the flag of milestone \<open>i\<close>
  is \<open>releaseMilestoneFunds i\<close> on a milestone that was Approved before the call. After a
  successful \<open>releaseMilestoneFunds j\<close>, whatever calls follow, a second one reverts, for the
  owner with \<open>FundsAlreadyReleased\<close>.
\<close>

theorem released_once:
  assumes "reachable t s"
  shows
  "(i < length (milestones s) \<and> fundsReleased (milestones s ! i) \<longrightarrow>
      state_of (milestones s ! i) = Approved \<and>
      i < length (milestones (run s cs)) \<and> fundsReleased (milestones (run s cs) ! i) \<and>
      (unat j = i \<longrightarrow>
         isl (releaseMilestoneFunds e' j (run s cs)) \<and>
         (msg_sender e' = owner s \<longrightarrow>
            releaseMilestoneFunds e' j (run s cs) = Inl FundsAlreadyReleased))) \<and>
   (i < length (milestones (apply_call s (e, c))) \<and>
    fundsReleased (milestones (apply_call s (e, c)) ! i) \<and>
    \<not> (i < length (milestones s) \<and> fundsReleased (milestones s ! i)) \<longrightarrow>
      i < length (milestones s) \<and> state_of (milestones s ! i) = Approved \<and>
      c = ReleaseMilestoneFunds (of_nat i) \<and> unat (of_nat i :: uint256) = i) \<and>
   (\<forall>s1. releaseMilestoneFunds e j s = Inr s1 \<longrightarrow>
      isl (releaseMilestoneFunds e' j (run s1 cs)) \<and>
      (msg_sender e' = owner s \<longrightarrow>
         releaseMilestoneFunds e' j (run s1 cs) = Inl FundsAlreadyReleased))"
proof (intro conjI impI allI)
  assume a: "i < length (milestones s) \<and> fundsReleased (milestones s ! i)"
  with reachable_state_of [OF assms, of i] show "state_of (milestones s ! i) = Approved"
    by simp
  from a run_flags_mono [of i s cs]
  show "i < length (milestones (run s cs))" "fundsReleased (milestones (run s cs) ! i)"
    by simp_all
  assume j: "unat j = i"
  from a reachable_state_of(2) [OF assms, of i] run_flags_mono [of i s cs] j
  have "unat j < length (milestones (run s cs))"
    "fundsReleased (milestones (run s cs) ! unat j)"
    "approved (milestones (run s cs) ! unat j)"
    by simp_all
  with release_after_released [of j "run s cs" e']
  show "isl (releaseMilestoneFunds e' j (run s cs))"
    "msg_sender e' = owner s \<Longrightarrow>
       releaseMilestoneFunds e' j (run s cs) = Inl FundsAlreadyReleased"
    by (simp_all add: run_owner)
next
  assume a: "i < length (milestones (apply_call s (e, c))) \<and>
    fundsReleased (milestones (apply_call s (e, c)) ! i) \<and>
    \<not> (i < length (milestones s) \<and> fundsReleased (milestones s ! i))"
  then obtain s' where ex: "exec e c s = Inr s'" and s': "apply_call s (e, c) = s'"
    by (cases "exec e c s") (auto simp: apply_call_def)
  from exec_newly_released [OF ex, of i] a s'
  obtain j where j: "i < length (milestones s)" "approved (milestones s ! i)"
    "unat j = i" "c = ReleaseMilestoneFunds j"
    by auto
  from j(3) have "of_nat i = j" by auto
  with j reachable_state_of(1) [OF assms j(1)]
  show "i < length (milestones s)" "state_of (milestones s ! i) = Approved"
    "c = ReleaseMilestoneFunds (of_nat i)" "unat (of_nat i :: uint256) = i"
    by simp_all
next
  fix s1
  assume rel: "releaseMilestoneFunds e j s = Inr s1"
  from release_sets_flag [OF rel] run_flags_mono [of "unat j" s1 cs]
  have "unat j < length (milestones (run s1 cs))"
    "fundsReleased (milestones (run s1 cs) ! unat j)"
    "approved (milestones (run s1 cs) ! unat j)" "owner (run s1 cs) = owner s"
    by (simp_all add: run_owner)
  with release_after_released [of j "run s1 cs" e']
  show "isl (releaseMilestoneFunds e' j (run s1 cs))"
    "msg_sender e' = owner s \<Longrightarrow>
         releaseMilestoneFunds e' j (run s1 cs) = Inl FundsAlreadyReleased"
    by simp_all
qed

theorem released_once_witness:
  "reachable 172811 (run campaign0 approved_trace) \<and>
   reachable 172812 (run campaign0 released_trace) \<and>
   \<not> fundsReleased (milestones (run campaign0 approved_trace) ! 0) \<and>
   state_of (milestones (run campaign0 approved_trace) ! 0) = Approved \<and>
   releaseMilestoneFunds (at_time 1 172812) 0 (run campaign0 approved_trace)
     = Inr (run campaign0 released_trace) \<and>
   fundsReleased (milestones (run campaign0 released_trace) ! 0) \<and>
   state_of (milestones (run campaign0 released_trace) ! 0) = Approved \<and>
   fundsReleased (milestones
     (run (run campaign0 released_trace) [(at_time 1 172900, Withdraw)]) ! 0) \<and>
   releaseMilestoneFunds (at_time 1 172950) 0
     (run (run campaign0 released_trace) [(at_time 1 172900, Withdraw)])
     = Inl FundsAlreadyReleased"
proof -
  let ?A = "run campaign0 approved_trace" and ?R = "run campaign0 released_trace"
  let ?cs = "[(at_time 1 172900, Withdraw)]"
  have rel: "releaseMilestoneFunds (at_time 1 172812) 0 ?A = Inr ?R"
    by (simp add: sample_defs contract_defs)
  then have step: "apply_call ?A (at_time 1 172812, ReleaseMilestoneFunds 0) = ?R"
    by (simp add: apply_call_def)
  have before: "0 < length (milestones ?A)" "\<not> fundsReleased (milestones ?A ! 0)"
    by (simp_all add: sample_defs contract_defs)
  have after: "0 < length (milestones ?R)" "fundsReleased (milestones ?R ! 0)"
    by (simp_all add: sample_defs contract_defs)
  have own: "msg_sender (at_time 1 172950) = owner ?A"
    by (simp add: sample_defs contract_defs)
  note A = released_once [OF reachable_approved, where i = 0 and cs = ?cs
      and e = "at_time 1 172812" and c = "ReleaseMilestoneFunds 0" and j = 0
      and e' = "at_time 1 172950"]
  note R = released_once [OF reachable_released, where i = 0 and cs = ?cs
      and e = "at_time 1 172812" and c = "ReleaseMilestoneFunds 0" and j = 0
      and e' = "at_time 1 172950"]
  from A step before after have "state_of (milestones ?A ! 0) = Approved"
    by simp
  moreover from A rel own
  have "releaseMilestoneFunds (at_time 1 172950) 0 (run ?R ?cs) = Inl FundsAlreadyReleased"
    by simp
  moreover from R after
  have "state_of (milestones ?R ! 0) = Approved" "fundsReleased (milestones (run ?R ?cs) ! 0)"
    by simp_all
  ultimately show ?thesis
    using reachable_approved reachable_released rel before after by simp
qed

text \<open>
  C3, as stated, fails in the error it names: a donor who has voted and calls
  \<open>voteOnMilestone\<close> again after the vote deadline is turned away by the earlier check, with
  \<open>VotingNotActive\<close>, not with \<open>AlreadyVoted\<close>.
\<close>

theorem second_vote_counterexample:
  "reachable 30 (run campaign0 voted_trace) \<and>
   hasVoted (run campaign0 voted_trace) 0 2 \<and>
   msg_sender (at_time 2 172811) = 2 \<and> (30 :: uint256) \<le> block_timestamp (at_time 2 172811) \<and>
   voteOnMilestone (at_time 2 172811) 0 True (run campaign0 voted_trace) = Inl VotingNotActive"
  using reachable_voted by (simp add: sample_defs contract_defs)

text \<open>
  C3, amended. In any sequence of calls at most one \<open>voteOnMilestone\<close> of a given donor on
  a given milestone index completes. Once \<open>hasVoted\<close> is set for (index, donor) it stays set
  through any further sequence of calls, no later vote of that donor on that index completes,
  and such a call reverts, leaving the whole state and so the tallies unchanged: with
  \<open>OnlyDonorsCanVote\<close> when the donor's balance is now zero, else with \<open>VotingNotActive\<close> when
  the milestone is no longer in voting or its vote deadline has passed, else with
  \<open>AlreadyVoted\<close>.
\<close>

theorem vote_recorded_once:
  assumes "reachable t s"
  shows "successful_votes s cs i a \<le> 1 \<and>
   (hasVoted s i a \<longrightarrow>
      hasVoted (run s cs) i a \<and> successful_votes s cs i a = 0 \<and>
      (msg_sender e = a \<longrightarrow>
         voteOnMilestone e i b s =
           Inl (if donations s a = 0 then OnlyDonorsCanVote
                else if \<not> votingActive (milestones s ! unat i) \<or>
                        voteDeadline (milestones s ! unat i) < block_timestamp e
                     then VotingNotActive
                else AlreadyVoted) \<and>
         apply_call s (e, VoteOnMilestone i b) = s))"
proof (intro conjI impI)
  show "successful_votes s cs i a \<le> 1" by (rule successful_votes_le_1)
next
  assume hv: "hasVoted s i a"
  then show "hasVoted (run s cs) i a" by (rule run_hasVoted_mono)
  from hv show "successful_votes s cs i a = 0" by (rule no_vote_after_flag)
  assume snd: "msg_sender e = a"
  from hv reachable_facts(3) [OF assms] have "unat i < length (milestones s)"
    by (auto simp: votes_in_range_def)
  with hv snd show v: "voteOnMilestone e i b s =
           Inl (if donations s a = 0 then OnlyDonorsCanVote
                else if \<not> votingActive (milestones s ! unat i) \<or>
                        voteDeadline (milestones s ! unat i) < block_timestamp e
                     then VotingNotActive
                else AlreadyVoted)"
    by (auto simp: voteOnMilestone_def Let_def)
  then show "apply_call s (e, VoteOnMilestone i b) = s"
    by (simp add: apply_call_def)
qed

theorem vote_recorded_once_witness:
  "reachable 30 (run campaign0 voted_trace) \<and>
   hasVoted (run campaign0 voted_trace) 0 2 \<and> msg_sender (at_time 2 40) = 2 \<and>
   hasVoted (run (run campaign0 voted_trace) [(at_time 2 40, VoteOnMilestone 0 False)]) 0 2 \<and>
   successful_votes (run campaign0 voted_trace) [(at_time 2 40, VoteOnMilestone 0 False)] 0 2 = 0 \<and>
   voteOnMilestone (at_time 2 40) 0 False (run campaign0 voted_trace) = Inl AlreadyVoted \<and>
   apply_call (run campaign0 voted_trace) (at_time 2 40, VoteOnMilestone 0 False)
     = run campaign0 voted_trace"
proof -
  let ?S = "run campaign0 voted_trace"
  have pre: "hasVoted ?S 0 2" "msg_sender (at_time 2 40) = 2"
    by (simp_all add: sample_defs contract_defs)
  have vals: "donations ?S 2 \<noteq> 0" "votingActive (milestones ?S ! unat (0 :: uint256))"
    "\<not> voteDeadline (milestones ?S ! unat (0 :: uint256)) < block_timestamp (at_time 2 40)"
    by (simp_all add: sample_defs contract_defs)
  from vote_recorded_once [OF reachable_voted, of "[(at_time 2 40, VoteOnMilestone 0 False)]"
      0 2 "at_time 2 40" False] pre vals reachable_voted
  show ?thesis by simp
qed

text \<open>
  C4. For a milestone of a reachable state that is in Voting state and whose vote deadline
  has passed, \<open>finalizeMilestoneVote\<close> succeeds and leaves it Approved exactly when
  \<open>yesVotes\<close> is strictly greater than \<open>noVotes\<close>, and Rejected otherwise: a tie,
  \<open>yesVotes \<le> noVotes\<close> and zero turnout all give Rejected. The tallies and the other
  milestones are unchanged.
\<close>

theorem finalize_majority:
  assumes "reachable t s" and "unat i < length (milestones s)"
    and "state_of (milestones s ! unat i) = Voting"
    and "voteDeadline (milestones s ! unat i) < block_timestamp e"
  shows "\<exists>s'. finalizeMilestoneVote e i s = Inr s' \<and>
      length (milestones s') = length (milestones s) \<and>
      state_of (milestones s' ! unat i) =
        (if noVotes (milestones s ! unat i) < yesVotes (milestones s ! unat i)
         then Approved else Rejected) \<and>
      (yesVotes (milestones s ! unat i) = noVotes (milestones s ! unat i) \<longrightarrow>
         state_of (milestones s' ! unat i) = Rejected) \<and>
      (yesVotes (milestones s ! unat i) \<le> noVotes (milestones s ! unat i) \<longrightarrow>
         state_of (milestones s' ! unat i) = Rejected) \<and>
      (yesVotes (milestones s ! unat i) = 0 \<and> noVotes (milestones s ! unat i) = 0 \<longrightarrow>
         state_of (milestones s' ! unat i) = Rejected) \<and>
      yesVotes (milestones s' ! unat i) = yesVotes (milestones s ! unat i) \<and>
      noVotes (milestones s' ! unat i) = noVotes (milestones s ! unat i) \<and>
      (\<forall>k<length (milestones s). k \<noteq> unat i \<longrightarrow> milestones s' ! k = milestones s ! k)"
proof -
  let ?m = "milestones s ! unat i"
  from assms(3) have act: "votingActive ?m"
    by (auto simp: state_of_def split: if_splits)
  with reachable_facts(2) [OF assms(1)] assms(2) have "\<not> approved ?m"
    by (auto simp: milestones_inv_def milestone_inv_def)
  moreover have "\<not> add_overflows (yesVotes ?m) (noVotes ?m)"
    using reachable_facts(4) [OF assms(1)] assms(2) by (rule tally_inv_no_overflow)
  ultimately show ?thesis
    using finalize_result [OF assms(2) act _ assms(4)]
    by (auto simp: state_of_def)
qed

theorem finalize_majority_witness:
  "reachable 30 (run campaign0 voted_trace) \<and>
   unat (0 :: uint256) < length (milestones (run campaign0 voted_trace)) \<and>
   state_of (milestones (run campaign0 voted_trace) ! unat (0 :: uint256)) = Voting \<and>
   voteDeadline (milestones (run campaign0 voted_trace) ! unat (0 :: uint256))
     < block_timestamp (at_time 4 172811) \<and>
   yesVotes (milestones (run campaign0 voted_trace) ! unat (0 :: uint256)) = 6 \<and>
   noVotes (milestones (run campaign0 voted_trace) ! unat (0 :: uint256)) = 4 \<and>
   (\<exists>s'. finalizeMilestoneVote (at_time 4 172811) 0 (run campaign0 voted_trace) = Inr s' \<and>
      state_of (milestones s' ! unat (0 :: uint256)) = Approved) \<and>
   reachable 10 (run campaign0 proposed_trace) \<and>
   unat (0 :: uint256) < length (milestones (run campaign0 proposed_trace)) \<and>
   state_of (milestones (run campaign0 proposed_trace) ! unat (0 :: uint256)) = Voting \<and>
   voteDeadline (milestones (run campaign0 proposed_trace) ! unat (0 :: uint256))
     < block_timestamp (at_time 4 172811) \<and>
   yesVotes (milestones (run campaign0 proposed_trace) ! unat (0 :: uint256)) = 0 \<and>
   noVotes (milestones (run campaign0 proposed_trace) ! unat (0 :: uint256)) = 0 \<and>
   (\<exists>s'. finalizeMilestoneVote (at_time 4 172811) 0 (run campaign0 proposed_trace) = Inr s' \<and>
      state_of (milestones s' ! unat (0 :: uint256)) = Rejected)"
proof -
  let ?S = "run campaign0 voted_trace" and ?P = "run campaign0 proposed_trace"
  have pre: "unat (0 :: uint256) < length (milestones ?S)"
    "state_of (milestones ?S ! unat (0 :: uint256)) = Voting"
    "voteDeadline (milestones ?S ! unat (0 :: uint256)) < block_timestamp (at_time 4 172811)"
    by (simp_all add: sample_defs contract_defs state_of_def)
  have vals: "yesVotes (milestones ?S ! unat (0 :: uint256)) = 6"
    "noVotes (milestones ?S ! unat (0 :: uint256)) = 4"
    by (simp_all add: sample_defs contract_defs)
  from finalize_majority [OF reachable_voted pre]
  obtain s' where "finalizeMilestoneVote (at_time 4 172811) 0 ?S = Inr s'"
    "state_of (milestones s' ! unat (0 :: uint256)) =
        (if noVotes (milestones ?S ! unat (0 :: uint256))
            < yesVotes (milestones ?S ! unat (0 :: uint256))
         then Approved else Rejected)"
    by blast
  with vals have yes: "\<exists>s'. finalizeMilestoneVote (at_time 4 172811) 0 ?S = Inr s' \<and>
      state_of (milestones s' ! unat (0 :: uint256)) = Approved"
    by simp
  have pre2: "unat (0 :: uint256) < length (milestones ?P)"
    "state_of (milestones ?P ! unat (0 :: uint256)) = Voting"
    "voteDeadline (milestones ?P ! unat (0 :: uint256)) < block_timestamp (at_time 4 172811)"
    by (simp_all add: sample_defs contract_defs state_of_def)
  have vals2: "yesVotes (milestones ?P ! unat (0 :: uint256)) = 0"
    "noVotes (milestones ?P ! unat (0 :: uint256)) = 0"
    by (simp_all add: sample_defs contract_defs)
  from finalize_majority [OF reachable_proposed pre2]
  obtain s2 where "finalizeMilestoneVote (at_time 4 172811) 0 ?P = Inr s2"
    "yesVotes (milestones ?P ! unat (0 :: uint256)) = 0 \<and>
     noVotes (milestones ?P ! unat (0 :: uint256)) = 0 \<longrightarrow>
       state_of (milestones s2 ! unat (0 :: uint256)) = Rejected"
    by blast
  with vals2 have no: "\<exists>s'. finalizeMilestoneVote (at_time 4 172811) 0 ?P = Inr s' \<and>
      state_of (milestones s' ! unat (0 :: uint256)) = Rejected"
    by blast
  from reachable_voted reachable_proposed pre vals yes pre2 vals2 no show ?thesis by blast
qed

text \<open>
  C5. For a milestone of a reachable state, \<open>finalizeMilestoneVote\<close> at a block timestamp at
  or before its vote deadline reverts with \<open>VotingStillActive\<close> and the state is unchanged.
  After the deadline, on a milestone still in Voting state, it succeeds and the milestone
  leaves the Voting state; from then on, whatever calls follow, every further
  \<open>finalizeMilestoneVote\<close> on that milestone reverts with \<open>VotingNotActive\<close>.
\<close>

theorem finalize_timing:
  assumes "reachable t s" and "t \<le> block_timestamp e" and "unat i < length (milestones s)"
  shows
  "(block_timestamp e \<le> voteDeadline (milestones s ! unat i) \<longrightarrow>
      finalizeMilestoneVote e i s = Inl VotingStillActive \<and>
      apply_call s (e, FinalizeMilestoneVote i) = s) \<and>
   (voteDeadline (milestones s ! unat i) < block_timestamp e \<and>
    state_of (milestones s ! unat i) = Voting \<longrightarrow>
      (\<exists>s'. finalizeMilestoneVote e i s = Inr s' \<and>
         state_of (milestones s' ! unat i) \<noteq> Voting \<and>
         finalizeMilestoneVote e' i (run s' cs) = Inl VotingNotActive))"
proof (intro conjI impI)
  let ?m = "milestones s ! unat i"
  assume early: "block_timestamp e \<le> voteDeadline ?m"
  have "votingActive ?m"
  proof (rule ccontr)
    assume "\<not> votingActive ?m"
    with reachable_state_of(3) [OF assms(1,3)] have "voteDeadline ?m < t" by simp
    with early assms(2) show False by simp
  qed
  with early assms(3) show "finalizeMilestoneVote e i s = Inl VotingStillActive"
    by (simp add: finalizeMilestoneVote_def Let_def)
  then show "apply_call s (e, FinalizeMilestoneVote i) = s"
    by (simp add: apply_call_def)
next
  let ?m = "milestones s ! unat i"
  assume late: "voteDeadline ?m < block_timestamp e \<and> state_of ?m = Voting"
  then have act: "votingActive ?m"
    by (auto simp: state_of_def split: if_splits)
  with reachable_facts(2) [OF assms(1)] assms(3) have "\<not> approved ?m"
    by (auto simp: milestones_inv_def milestone_inv_def)
  moreover have "\<not> add_overflows (yesVotes ?m) (noVotes ?m)"
    using reachable_facts(4) [OF assms(1)] assms(3) by (rule tally_inv_no_overflow)
  ultimately obtain s' where s': "finalizeMilestoneVote e i s = Inr s'"
    and closed: "length (milestones s') = length (milestones s)"
      "\<not> votingActive (milestones s' ! unat i)"
    using finalize_result [OF assms(3) act, of e] late by blast
  with run_flags_mono [of "unat i" s' cs] assms(3)
  have "unat i < length (milestones (run s' cs))"
    "\<not> votingActive (milestones (run s' cs) ! unat i)"
    by simp_all
  then have "finalizeMilestoneVote e' i (run s' cs) = Inl VotingNotActive"
    by (simp add: finalizeMilestoneVote_def Let_def)
  with s' closed show "\<exists>s'. finalizeMilestoneVote e i s = Inr s' \<and>
         state_of (milestones s' ! unat i) \<noteq> Voting \<and>
         finalizeMilestoneVote e' i (run s' cs) = Inl VotingNotActive"
    by (auto simp: state_of_def)
qed

theorem finalize_timing_witness:
  "reachable 30 (run campaign0 voted_trace) \<and>
   (30 :: uint256) \<le> block_timestamp (at_time 4 172810) \<and>
   (30 :: uint256) \<le> block_timestamp (at_time 4 172811) \<and>
   unat (0 :: uint256) < length (milestones (run campaign0 voted_trace)) \<and>
   voteDeadline (milestones (run campaign0 voted_trace) ! unat (0 :: uint256)) = 172810 \<and>
   state_of (milestones (run campaign0 voted_trace) ! unat (0 :: uint256)) = Voting \<and>
   finalizeMilestoneVote (at_time 4 172810) 0 (run campaign0 voted_trace)
     = Inl VotingStillActive \<and>
   (\<exists>s'. finalizeMilestoneVote (at_time 4 172811) 0 (run campaign0 voted_trace) = Inr s' \<and>
      state_of (milestones s' ! unat (0 :: uint256)) \<noteq> Voting \<and>
      finalizeMilestoneVote (at_time 5 172900) 0 (run s' [(at_time 1 172850, EndCampaign)])
        = Inl VotingNotActive)"
proof -
  let ?S = "run campaign0 voted_trace"
  have pre: "(30 :: uint256) \<le> block_timestamp (at_time 4 172810)"
    "(30 :: uint256) \<le> block_timestamp (at_time 4 172811)"
    "unat (0 :: uint256) < length (milestones ?S)"
    "voteDeadline (milestones ?S ! unat (0 :: uint256)) = 172810"
    "state_of (milestones ?S ! unat (0 :: uint256)) = Voting"
    by (simp_all add: sample_defs contract_defs state_of_def)
  have ts: "block_timestamp (at_time 4 172810) = 172810" "block_timestamp (at_time 4 172811) = 172811"
    by (simp_all add: at_time_def)
  from finalize_timing [OF reachable_voted pre(1) pre(3)] pre(4) ts
  have early: "finalizeMilestoneVote (at_time 4 172810) 0 ?S = Inl VotingStillActive"
    by simp
  from finalize_timing [OF reachable_voted pre(2) pre(3),
      of "at_time 5 172900" "[(at_time 1 172850, EndCampaign)]"] pre(4,5) ts
  have "\<exists>s'. finalizeMilestoneVote (at_time 4 172811) 0 ?S = Inr s' \<and>
      state_of (milestones s' ! unat (0 :: uint256)) \<noteq> Voting \<and>
      finalizeMilestoneVote (at_time 5 172900) 0 (run s' [(at_time 1 172850, EndCampaign)])
        = Inl VotingNotActive"
    by simp
  with reachable_voted pre early show ?thesis by blast
qed



text \<open>
  C7, as stated, fails: \<open>donate\<close> with a positive amount before the deadline does not succeed
  when the donor's balance or \<open>totalDonations\<close> would exceed \<open>2 ^ 256 - 1\<close>; the checked
  addition reverts with a panic. After a donation of \<open>2 ^ 256 - 1\<close> wei, a donation of 1 wei
  before the deadline is refused.
\<close>

theorem donate_overflow_counterexample:
  "reachable 5 (run campaign0 saturated_trace) \<and>
   (0 :: uint256) < 1 \<and>
   block_timestamp (at_time 3 5) < deadline (run campaign0 saturated_trace) \<and>
   donate (at_time 3 5) 1 (run campaign0 saturated_trace) = Inl Panic"
  using reachable_saturated by (simp add: sample_defs contract_defs)

text \<open>
  C7, amended. \<open>donate\<close> succeeds exactly when the amount is positive, the block timestamp is
  strictly before the deadline, and neither the donor's balance nor \<open>totalDonations\<close> overflows
  \<open>uint256\<close>. At or after the deadline it fails with \<open>FundraisingClosed\<close>, before the deadline
  with a zero amount it fails with \<open>InvalidDonationAmount\<close>, and on overflow with a panic. On
  success the donor's balance and \<open>totalDonations\<close> both grow by the amount (as numbers,
  without wrapping) and no other donor's balance changes.
\<close>

theorem donate_succeeds_iff:
  "(deadline s \<le> block_timestamp e \<longrightarrow> donate e v s = Inl FundraisingClosed) \<and>
   (block_timestamp e < deadline s \<and> v = 0 \<longrightarrow> donate e v s = Inl InvalidDonationAmount) \<and>
   (block_timestamp e < deadline s \<and> 0 < v \<and>
      (add_overflows (donations s (msg_sender e)) v \<or> add_overflows (totalDonations s) v)
      \<longrightarrow> donate e v s = Inl Panic) \<and>
   ((\<exists>s'. donate e v s = Inr s') \<longleftrightarrow>
      0 < v \<and> block_timestamp e < deadline s \<and>
      \<not> add_overflows (donations s (msg_sender e)) v \<and>
      \<not> add_overflows (totalDonations s) v) \<and>
   (\<forall>s'. donate e v s = Inr s' \<longrightarrow>
      unat (donations s' (msg_sender e)) = unat (donations s (msg_sender e)) + unat v \<and>
      unat (totalDonations s') = unat (totalDonations s) + unat v \<and>
      (\<forall>a. a \<noteq> msg_sender e \<longrightarrow> donations s' a = donations s a))"
  by (auto simp: donate_def unat_add_no_overflow word_neq_0_conv split: if_splits)

theorem donate_succeeds_iff_witness:
  "(0 :: uint256) < 4 \<and>
   block_timestamp (at_time 3 6) < deadline (run campaign0 [(at_time 2 5, Donate 6)]) \<and>
   \<not> add_overflows (donations (run campaign0 [(at_time 2 5, Donate 6)]) (msg_sender (at_time 3 6))) 4 \<and>
   \<not> add_overflows (totalDonations (run campaign0 [(at_time 2 5, Donate 6)])) 4 \<and>
   (\<exists>s'. donate (at_time 3 6) 4 (run campaign0 [(at_time 2 5, Donate 6)]) = Inr s' \<and>
      unat (donations s' 3) = 4 \<and> unat (totalDonations s') = 10 \<and> donations s' 2 = 6) \<and>
   deadline campaign0 \<le> block_timestamp (at_time 3 86400) \<and>
   donate (at_time 3 86400) 4 campaign0 = Inl FundraisingClosed \<and>
   block_timestamp (at_time 3 6) < deadline campaign0 \<and>
   donate (at_time 3 6) 0 campaign0 = Inl InvalidDonationAmount \<and>
   block_timestamp (at_time 3 6) < deadline (run campaign0 saturated_trace) \<and>
   add_overflows (totalDonations (run campaign0 saturated_trace)) 1 \<and>
   donate (at_time 3 6) 1 (run campaign0 saturated_trace) = Inl Panic"
proof -
  let ?s = "run campaign0 [(at_time 2 5, Donate 6)]" and ?f = "run campaign0 saturated_trace"
  have pre: "(0 :: uint256) < 4" "block_timestamp (at_time 3 6) < deadline ?s"
    "\<not> add_overflows (donations ?s (msg_sender (at_time 3 6))) 4"
    "\<not> add_overflows (totalDonations ?s) 4"
    by (simp_all add: sample_defs contract_defs)
  have vals: "msg_sender (at_time 3 6) = 3" "unat (donations ?s 3) = 0"
    "unat (totalDonations ?s) = 6" "donations ?s 2 = 6"
    by (simp_all add: sample_defs contract_defs)
  from donate_succeeds_iff [of ?s "at_time 3 6" 4] pre
  obtain s' where s': "donate (at_time 3 6) 4 ?s = Inr s'"
    by blast
  with donate_succeeds_iff [of ?s "at_time 3 6" 4] vals
  have ok: "unat (donations s' 3) = 4 \<and> unat (totalDonations s') = 10 \<and> donations s' 2 = 6"
    by auto
  have late: "deadline campaign0 \<le> block_timestamp (at_time 3 86400)"
    by (simp add: sample_defs)
  with donate_succeeds_iff [of campaign0 "at_time 3 86400" 4]
  have closed: "donate (at_time 3 86400) 4 campaign0 = Inl FundraisingClosed"
    by blast
  have early: "block_timestamp (at_time 3 6) < deadline campaign0"
    by (simp add: sample_defs)
  with donate_succeeds_iff [of campaign0 "at_time 3 6" 0]
  have zero: "donate (at_time 3 6) 0 campaign0 = Inl InvalidDonationAmount"
    by blast
  have full: "block_timestamp (at_time 3 6) < deadline ?f" "add_overflows (totalDonations ?f) 1"
    "(0 :: uint256) < 1"
    by (simp_all add: sample_defs contract_defs)
  with donate_succeeds_iff [of ?f "at_time 3 6" 1]
  have panic: "donate (at_time 3 6) 1 ?f = Inl Panic"
    by blast
  from pre s' ok late closed early zero full panic show ?thesis by blast
qed




text \<open>
  C9. \<open>createMilestone\<close> fails with \<open>NotOwner\<close> when the caller is not the owner; for the
  owner it fails with \<open>EmptyDescription\<close> when the description is empty, then with
  \<open>InvalidMilestoneAmount\<close> (the specification's InvalidAmount) when the amount is zero or
  exceeds the contract's balance, then with \<open>InvalidMilestone\<close> (the error the source raises
  for the specification's InvalidDuration) when the voting duration is zero. The duration is
  given in days and timestamps count seconds: when the call succeeds, which it does whenever
  these checks pass and the deadline fits a \<open>uint256\<close>, it appends one milestone whose vote
  deadline is the block timestamp plus the duration (\<open>86400\<close> seconds a day), in Voting state,
  with zero tallies and not released.
\<close>

theorem createMilestone_spec:
  "(msg_sender e \<noteq> owner s \<longrightarrow> createMilestone e d a n s = Inl NotOwner) \<and>
   (msg_sender e = owner s \<and> d = [] \<longrightarrow> createMilestone e d a n s = Inl EmptyDescription) \<and>
   (msg_sender e = owner s \<and> d \<noteq> [] \<and> (a = 0 \<or> this_balance s < a) \<longrightarrow>
      createMilestone e d a n s = Inl InvalidMilestoneAmount) \<and>
   (msg_sender e = owner s \<and> d \<noteq> [] \<and> 0 < a \<and> a \<le> this_balance s \<and> n = 0 \<longrightarrow>
      createMilestone e d a n s = Inl InvalidMilestone) \<and>
   (msg_sender e = owner s \<and> d \<noteq> [] \<and> 0 < a \<and> a \<le> this_balance s \<and> 0 < n \<and>
      unat (block_timestamp e) + unat n * 86400 < 2 ^ 256 \<longrightarrow>
      (\<exists>s'. createMilestone e d a n s = Inr s')) \<and>
   (\<forall>s'. createMilestone e d a n s = Inr s' \<longrightarrow>
      (\<exists>m. milestones s' = milestones s @ [m] \<and>
        description m = d \<and> fundAmount m = a \<and>
        voteDeadline m = block_timestamp e + n * one_day \<and>
        unat (voteDeadline m) = unat (block_timestamp e) + unat n * 86400 \<and>
        state_of m = Voting \<and> yesVotes m = 0 \<and> noVotes m = 0 \<and> \<not> fundsReleased m))"
  apply (intro conjI impI allI)
       apply (auto simp: createMilestone_def word_neq_0_conv state_of_def unat_add_no_overflow
                unat_mul_no_overflow unat_one_day split: if_splits)
   apply (auto simp: add_overflows_def mul_overflows_def unat_one_day
            unat_mult_lem [THEN iffD1] not_less)
  done

theorem createMilestone_spec_witness:
  "msg_sender (at_time 1 10) = owner (run campaign0 donated_trace) \<and>
   (0 :: uint256) < 3 \<and> 3 \<le> this_balance (run campaign0 donated_trace) \<and> (0 :: uint256) < 2 \<and>
   (\<exists>s' m. createMilestone (at_time 1 10) ''well'' 3 2 (run campaign0 donated_trace) = Inr s' \<and>
      milestones s' = [m] \<and> unat (voteDeadline m) = 172810 \<and> state_of m = Voting \<and>
      yesVotes m = 0 \<and> noVotes m = 0 \<and> \<not> fundsReleased m) \<and>
   msg_sender (at_time 2 10) \<noteq> owner (run campaign0 donated_trace) \<and>
   createMilestone (at_time 2 10) ''well'' 3 2 (run campaign0 donated_trace) = Inl NotOwner \<and>
   createMilestone (at_time 1 10) [] 3 2 (run campaign0 donated_trace) = Inl EmptyDescription \<and>
   this_balance (run campaign0 donated_trace) < 11 \<and>
   createMilestone (at_time 1 10) ''well'' 11 2 (run campaign0 donated_trace)
     = Inl InvalidMilestoneAmount \<and>
   createMilestone (at_time 1 10) ''well'' 0 2 (run campaign0 donated_trace)
     = Inl InvalidMilestoneAmount \<and>
   createMilestone (at_time 1 10) ''well'' 3 0 (run campaign0 donated_trace)
     = Inl InvalidMilestone"
proof -
  let ?s = "run campaign0 donated_trace"
  have pre: "msg_sender (at_time 1 10) = owner ?s" "(0 :: uint256) < 3" "3 \<le> this_balance ?s"
    "(0 :: uint256) < 2" "''well'' \<noteq> []"
    "unat (block_timestamp (at_time 1 10)) + unat (2 :: uint256) * 86400 < 2 ^ 256"
    by (simp_all add: sample_defs contract_defs)
  have vals: "milestones ?s = []" "unat (block_timestamp (at_time 1 10)) = 10"
    by (simp_all add: sample_defs contract_defs)
  from createMilestone_spec [of "at_time 1 10" ?s "''well''" 3 2] pre
  obtain s' where s': "createMilestone (at_time 1 10) ''well'' 3 2 ?s = Inr s'"
    by blast
  with createMilestone_spec [of "at_time 1 10" ?s "''well''" 3 2]
  obtain m where "milestones s' = milestones ?s @ [m]"
    "unat (voteDeadline m) = unat (block_timestamp (at_time 1 10)) + unat (2 :: uint256) * 86400"
    "state_of m = Voting" "yesVotes m = 0" "noVotes m = 0" "\<not> fundsReleased m"
    by blast
  with vals have ok: "milestones s' = [m] \<and> unat (voteDeadline m) = 172810 \<and> state_of m = Voting \<and>
      yesVotes m = 0 \<and> noVotes m = 0 \<and> \<not> fundsReleased m"
    by simp
  have stranger: "msg_sender (at_time 2 10) \<noteq> owner ?s"
    by (simp add: sample_defs contract_defs)
  with createMilestone_spec [of "at_time 2 10" ?s "''well''" 3 2]
  have e1: "createMilestone (at_time 2 10) ''well'' 3 2 ?s = Inl NotOwner"
    by blast
  from createMilestone_spec [of "at_time 1 10" ?s "[]" 3 2] pre(1)
  have e2: "createMilestone (at_time 1 10) [] 3 2 ?s = Inl EmptyDescription"
    by blast
  have big: "this_balance ?s < 11"
    by (simp add: sample_defs contract_defs)
  with createMilestone_spec [of "at_time 1 10" ?s "''well''" 11 2] pre(1,5)
  have e3: "createMilestone (at_time 1 10) ''well'' 11 2 ?s = Inl InvalidMilestoneAmount"
    by blast
  from createMilestone_spec [of "at_time 1 10" ?s "''well''" 0 2] pre(1,5)
  have e4: "createMilestone (at_time 1 10) ''well'' 0 2 ?s = Inl InvalidMilestoneAmount"
    by blast
  from createMilestone_spec [of "at_time 1 10" ?s "''well''" 3 0] pre(1,2,3,5)
  have e5: "createMilestone (at_time 1 10) ''well'' 3 0 ?s = Inl InvalidMilestone"
    by blast
  from pre s' ok stranger e1 e2 big e3 e4 e5 show ?thesis by blast
qed

text \<open>
  C10, as stated, fails: while the owner's account receives the ether of a successful
  \<open>withdraw\<close> it can call \<open>finalizeMilestoneVote\<close>, which is open to anyone. After the
  vote deadline of the sample campaign this leaves milestone 0 Approved where it was in
  Voting state before the call, so the milestone list is not the same before and after.
\<close>

theorem withdraw_callback_counterexample:
  "reachable 30 (run campaign0 voted_trace) \<and>
   (30 :: uint256) \<le> block_timestamp (at_time 1 172811) \<and>
   \<not> isl (withdraw_call (at_time 1 172811) [(1, True, FinalizeMilestoneVote 0)]
            (run campaign0 voted_trace)) \<and>
   state_of (milestones (run campaign0 voted_trace) ! 0) = Voting \<and>
   state_of (milestones (projr (withdraw_call (at_time 1 172811)
       [(1, True, FinalizeMilestoneVote 0)] (run campaign0 voted_trace))) ! 0) = Approved \<and>
   milestones (projr (withdraw_call (at_time 1 172811)
       [(1, True, FinalizeMilestoneVote 0)] (run campaign0 voted_trace)))
     \<noteq> milestones (run campaign0 voted_trace)"
  using reachable_voted
  by (simp add: sample_defs contract_defs withdraw_call_def in_same_block_def state_of_def)

text \<open>
  C10, amended. A successful \<open>withdraw\<close> writes no ledger, milestone or vote state of its
  own. When the owner's account makes no call back into the contract while it receives the
  ether, the donor balances, \<open>totalDonations\<close>, the milestone list, the vote records (and
  the updates and the campaign flag) are the same before and after the call, every donor's
  recorded balance and the progress percentage read the same, and only the ether held by the
  contract changes: it is sent out in full. When the owner's account does call back, the
  state after \<open>withdraw\<close> is the one these nested calls produce from the state before the
  call with the balance sent out; \<open>withdraw\<close> adds only its \<open>FundsWithdrawn\<close> event, and
  the owner, the goal and the deadline are unchanged in either case.
\<close>

theorem withdraw_call_frame:
  assumes "withdraw_call e callbacks s = Inr s'"
  shows
  "(callbacks = [] \<longrightarrow>
      donations s' = donations s \<and> totalDonations s' = totalDonations s \<and>
      milestones s' = milestones s \<and> hasVoted s' = hasVoted s \<and>
      updates s' = updates s \<and> campaignActive s' = campaignActive s \<and>
      progressPercentage s' = progressPercentage s \<and>
      this_balance s' = 0 \<and> events s' = events s @ [FundsWithdrawn (this_balance s)]) \<and>
   donations s' = donations (run (s\<lparr>this_balance := 0\<rparr>) (map (in_same_block e) callbacks)) \<and>
   totalDonations s' =
     totalDonations (run (s\<lparr>this_balance := 0\<rparr>) (map (in_same_block e) callbacks)) \<and>
   milestones s' = milestones (run (s\<lparr>this_balance := 0\<rparr>) (map (in_same_block e) callbacks)) \<and>
   hasVoted s' = hasVoted (run (s\<lparr>this_balance := 0\<rparr>) (map (in_same_block e) callbacks)) \<and>
   updates s' = updates (run (s\<lparr>this_balance := 0\<rparr>) (map (in_same_block e) callbacks)) \<and>
   campaignActive s' =
     campaignActive (run (s\<lparr>this_balance := 0\<rparr>) (map (in_same_block e) callbacks)) \<and>
   this_balance s' =
     this_balance (run (s\<lparr>this_balance := 0\<rparr>) (map (in_same_block e) callbacks)) \<and>
   events s' = events (run (s\<lparr>this_balance := 0\<rparr>) (map (in_same_block e) callbacks))
       @ [FundsWithdrawn (this_balance s)] \<and>
   owner s' = owner s \<and> fundraisingGoal s' = fundraisingGoal s \<and> deadline s' = deadline s"
proof -
  let ?r = "run (s\<lparr>this_balance := 0\<rparr>) (map (in_same_block e) callbacks)"
  from assms have s': "s' = ?r\<lparr> events := events ?r @ [FundsWithdrawn (this_balance s)] \<rparr>"
    by (auto simp: withdraw_call_def Let_def split: if_splits)
  have imm: "owner ?r = owner s" "fundraisingGoal ?r = fundraisingGoal s" "deadline ?r = deadline s"
    using run_immutables [of "s\<lparr>this_balance := 0\<rparr>" "map (in_same_block e) callbacks"]
    by simp_all
  have "callbacks = [] \<Longrightarrow> ?r = s\<lparr>this_balance := 0\<rparr>"
    by (simp add: run_def)
  with s' imm show ?thesis
    by (auto simp: progressPercentage_def)
qed

theorem withdraw_call_frame_witness:
  "withdraw_call (at_time 1 40) [] (run campaign0 donated_trace) =
     Inr (run campaign0 (donated_trace @ [(at_time 1 40, Withdraw)])) \<and>
   donations (run campaign0 (donated_trace @ [(at_time 1 40, Withdraw)])) 2 = 6 \<and>
   totalDonations (run campaign0 (donated_trace @ [(at_time 1 40, Withdraw)])) = 10 \<and>
   milestones (run campaign0 (donated_trace @ [(at_time 1 40, Withdraw)])) = [] \<and>
   progressPercentage (run campaign0 (donated_trace @ [(at_time 1 40, Withdraw)])) = Inr 100 \<and>
   this_balance (run campaign0 (donated_trace @ [(at_time 1 40, Withdraw)])) = 0 \<and>
   (\<exists>s'. withdraw_call (at_time 1 172811) [(1, True, FinalizeMilestoneVote 0)]
           (run campaign0 voted_trace) = Inr s' \<and>
      state_of (milestones s' ! 0) = Approved \<and> donations s' 2 = 6 \<and>
      totalDonations s' = 10 \<and> this_balance s' = 0 \<and> owner s' = 1)"
proof -
  let ?D = "run campaign0 donated_trace"
  let ?D' = "run campaign0 (donated_trace @ [(at_time 1 40, Withdraw)])"
  let ?S = "run campaign0 voted_trace"
  let ?cbs = "[(1 :: address, True, FinalizeMilestoneVote 0)]"
  let ?R = "run (?S\<lparr>this_balance := 0\<rparr>) (map (in_same_block (at_time 1 172811)) ?cbs)"
  have w: "withdraw_call (at_time 1 40) [] ?D = Inr ?D'"
    by (simp add: sample_defs contract_defs withdraw_call_def)
  have vals: "donations ?D 2 = 6" "totalDonations ?D = 10" "milestones ?D = []"
    "progressPercentage ?D = Inr 100"
    by (simp_all add: sample_defs contract_defs progressPercentage_def)
  from withdraw_call_frame [OF w] vals
  have plain: "donations ?D' 2 = 6" "totalDonations ?D' = 10" "milestones ?D' = []"
    "progressPercentage ?D' = Inr 100" "this_balance ?D' = 0"
    by simp_all
  obtain s' where s': "withdraw_call (at_time 1 172811) ?cbs ?S = Inr s'"
    by (simp add: sample_defs contract_defs withdraw_call_def in_same_block_def)
  have during: "state_of (milestones ?R ! 0) = Approved" "donations ?R 2 = 6"
    "totalDonations ?R = 10" "this_balance ?R = 0" "owner ?S = 1"
    by (simp_all add: sample_defs contract_defs in_same_block_def state_of_def)
  from withdraw_call_frame [OF s'] during
  have "state_of (milestones s' ! 0) = Approved \<and> donations s' 2 = 6 \<and>
      totalDonations s' = 10 \<and> this_balance s' = 0 \<and> owner s' = 1"
    by simp
  with w plain s' show ?thesis by blast
qed

end
